theory Spec2Isabelle
  imports Main "HOL-Library.Word"
begin

unbundle bit_operations_syntax

section \<open>Spesh statistics: data model\<close>

text \<open>
  Pointers to garbage-collected objects, static frames and callsites are handles
  (natural numbers); the handle \<open>0\<close> is the C \<open>NULL\<close>.  The counters of the statistics
  tree are \<open>MVMuint32\<close>.

  Modelled from the spec: the declarations of \<open>MVMSpeshStats\<close> and of the instance's
  \<open>spesh_stats_version\<close> are not among the sources; the version counter and
  \<open>last_update\<close> are taken as unsigned 64-bit words ("a monotonic u64").
\<close>

type_synonym handle = nat

record MVMSpeshStatsType =
  st_type :: handle
  st_type_concrete :: "8 word"
  st_decont_type :: handle
  st_decont_type_concrete :: "8 word"

record MVMSpeshStatsTypeCount =
  tc_type :: handle
  tc_type_concrete :: "8 word"
  tc_count :: "32 word"

record MVMSpeshStatsValueCount =
  vc_value :: handle
  vc_count :: "32 word"

record MVMSpeshStatsTypeTupleCount =
  ttc_cs :: handle
  ttc_arg_types :: "MVMSpeshStatsType list"
  ttc_count :: "32 word"

record MVMSpeshStatsByOffset =
  bo_bytecode_offset :: "32 word"
  bo_types :: "MVMSpeshStatsTypeCount list"
  bo_values :: "MVMSpeshStatsValueCount list"
  bo_type_tuples :: "MVMSpeshStatsTypeTupleCount list"

record MVMSpeshStatsByType =
  bt_arg_types :: "MVMSpeshStatsType list"
  bt_hits :: "32 word"
  bt_osr_hits :: "32 word"
  bt_max_depth :: "32 word"
  bt_by_offset :: "MVMSpeshStatsByOffset list"

record MVMSpeshStatsByCallsite =
  bcs_cs :: handle
  bcs_hits :: "32 word"
  bcs_osr_hits :: "32 word"
  bcs_max_depth :: "32 word"
  bcs_by_type :: "MVMSpeshStatsByType list"

record MVMSpeshStatsStatic =
  sv_value :: handle
  sv_bytecode_offset :: "32 word"

record MVMSpeshStats =
  ss_by_callsite :: "MVMSpeshStatsByCallsite list"
  ss_static_values :: "MVMSpeshStatsStatic list"
  ss_hits :: "32 word"
  ss_osr_hits :: "32 word"
  ss_last_update :: "64 word"

text \<open>
  \<open>sf->body.spesh->body.spesh_stats\<close> for every static frame handle: \<open>None\<close> is the
  null pointer.
\<close>

type_synonym stats_store = "handle \<Rightarrow> MVMSpeshStats option"

section \<open>Ageing: \<open>MVM_spesh_stats_cleanup\<close>\<close>

text \<open>
  The frame array \<open>check_frames\<close> is compacted in place: the loop reads position \<open>i\<close>
  and writes position \<open>insert_pos\<close>, and \<open>MVM_repr_pos_set_elems\<close> cuts the array at
  the end.  \<open>MVM_spesh_stats_destroy\<close> only frees memory; what is left of it in the
  model is the store's entry becoming \<open>None\<close>.  The comparison is the unsigned one of
  C, on the wrapped difference; \<open>max_age\<close> is \<open>MVM_SPESH_STATS_MAX_AGE\<close>, whose
  definition is not among the sources.
\<close>

function cleanup_loop ::
  "64 word \<Rightarrow> 64 word \<Rightarrow> nat \<Rightarrow> nat \<Rightarrow> nat \<Rightarrow> handle list \<Rightarrow> stats_store
     \<Rightarrow> nat \<times> handle list \<times> stats_store" where
  "cleanup_loop version max_age elems i insert_pos check_frames stats =
     (if i < elems then
        (let sf = check_frames ! i in
         case stats sf of
           None \<Rightarrow>
             cleanup_loop version max_age elems (i + 1) insert_pos check_frames stats
         | Some ss \<Rightarrow>
             if version - ss_last_update ss > max_age then
               cleanup_loop version max_age elems (i + 1) insert_pos check_frames
                 (stats(sf := None))
             else
               cleanup_loop version max_age elems (i + 1) (insert_pos + 1)
                 (check_frames[insert_pos := sf]) stats)
      else (insert_pos, check_frames, stats))"
  by pat_completeness auto
termination
  by (relation "measure (\<lambda>(version, max_age, elems, i, rest). elems - i)") auto

definition MVM_spesh_stats_cleanup ::
  "64 word \<Rightarrow> 64 word \<Rightarrow> handle list \<Rightarrow> stats_store \<Rightarrow> handle list \<times> stats_store" where
  "MVM_spesh_stats_cleanup version max_age check_frames stats =
     (case cleanup_loop version max_age (length check_frames) 0 0 check_frames stats of
        (insert_pos, frames', stats') \<Rightarrow> (take insert_pos frames', stats'))"

text \<open>The frames that the cleanup keeps, judged on the store before the call.\<close>

definition fresh_stats :: "64 word \<Rightarrow> 64 word \<Rightarrow> stats_store \<Rightarrow> handle \<Rightarrow> bool" where
  "fresh_stats version max_age stats sf =
     (case stats sf of None \<Rightarrow> False
      | Some ss \<Rightarrow> version - ss_last_update ss \<le> max_age)"

definition aged_stats :: "64 word \<Rightarrow> 64 word \<Rightarrow> stats_store \<Rightarrow> handle \<Rightarrow> bool" where
  "aged_stats version max_age stats sf =
     (case stats sf of None \<Rightarrow> False
      | Some ss \<Rightarrow> version - ss_last_update ss > max_age)"

section \<open>The log and the simulated call stack\<close>

text \<open>
  What the aggregator reads from the VM and never changes.  A callsite handle gives
  its flags; \<open>cs_arg_is_obj cs ! i\<close> is \<open>cs->arg_flags[i] & MVM_CALLSITE_ARG_OBJ\<close>
  seen as a truth value, and the length of that list is \<open>cs->flag_count\<close> (the
  declarations of \<open>MVMCallsite\<close> and of the flag are not among the sources).
  \<open>container_spec t\<close> is \<open>t->st->container_spec\<close> being non-null,
  \<open>is_concrete_code c\<close> is \<open>IS_CONCRETE(c) && REPR(c)->ID == MVM_REPR_ID_MVMCode\<close>,
  \<open>code_sf c\<close> is \<open>((MVMCode * )c)->body.sf\<close>, and \<open>spesh_stats_version\<close> is
  \<open>tc->instance->spesh_stats_version\<close>.
\<close>

record vm_env =
  cs_arg_is_obj :: "handle \<Rightarrow> bool list"
  cs_num_pos :: "handle \<Rightarrow> 16 word"
  container_spec :: "handle \<Rightarrow> bool"
  is_concrete_code :: "handle \<Rightarrow> bool"
  code_sf :: "handle \<Rightarrow> handle"
  spesh_stats_version :: "64 word"

definition cs_flag_count :: "vm_env \<Rightarrow> handle \<Rightarrow> nat" where
  "cs_flag_count env cs = length (cs_arg_is_obj env cs)"

text \<open>
  A log entry: the kind, the correlation id, and the payload of the C union for that
  kind.  \<open>MVM_SPESH_LOG_ENTRY id sf cs\<close>; \<open>MVM_SPESH_LOG_PARAMETER id arg_idx type
  flags\<close> and its decont twin; \<open>MVM_SPESH_LOG_TYPE id bytecode_offset type flags\<close> and
  \<open>MVM_SPESH_LOG_RETURN\<close> alike; \<open>MVM_SPESH_LOG_INVOKE id bytecode_offset value\<close> and
  \<open>MVM_SPESH_LOG_STATIC\<close> alike; \<open>MVM_SPESH_LOG_OSR id\<close>.
\<close>

datatype MVMSpeshLogEntry =
    MVM_SPESH_LOG_ENTRY "32 word" handle handle
  | MVM_SPESH_LOG_PARAMETER "32 word" "16 word" handle "32 word"
  | MVM_SPESH_LOG_PARAMETER_DECONT "32 word" "16 word" handle "32 word"
  | MVM_SPESH_LOG_TYPE "32 word" "32 word" handle "32 word"
  | MVM_SPESH_LOG_INVOKE "32 word" "32 word" handle
  | MVM_SPESH_LOG_OSR "32 word"
  | MVM_SPESH_LOG_STATIC "32 word" "32 word" handle
  | MVM_SPESH_LOG_RETURN "32 word" "32 word" handle "32 word"

text \<open>Modelled from the spec: the flag's definition is not among the sources
  ("flags (bit 0 = concrete)").\<close>

definition MVM_SPESH_LOG_TYPE_FLAG_CONCRETE :: "32 word" where
  "MVM_SPESH_LOG_TYPE_FLAG_CONCRETE = 1"

definition concrete_flag :: "32 word \<Rightarrow> 8 word" where
  "concrete_flag flags = ucast (flags AND MVM_SPESH_LOG_TYPE_FLAG_CONCRETE)"

record SimCallType =
  sct_bytecode_offset :: "32 word"
  sct_cs :: handle
  sct_arg_types :: "MVMSpeshStatsType list"

text \<open>
  A frame of the simulated stack.  The C field \<open>ss\<close> points to the statistics of
  \<open>sf\<close>, which \<open>stats_for\<close> allocated and nothing frees while the log is processed:
  the model reads it from the store at \<open>simf_sf\<close>.  \<open>arg_types\<close> is the buffer of
  \<open>flag_count\<close> slots, the empty list when the callsite is null (C: \<open>NULL\<close>).  The
  buffered log entries are held by value; the C code holds pointers into the log.
\<close>

record SimStackFrame =
  simf_sf :: handle
  simf_cid :: "32 word"
  simf_callsite_idx :: nat
  simf_arg_types :: "MVMSpeshStatsType list"
  simf_offset_logs :: "MVMSpeshLogEntry list"
  simf_call_type_info :: "SimCallType list"
  simf_osr_hits :: "32 word"
  simf_last_invoke_offset :: "32 word"
  simf_last_invoke_code :: handle

text \<open>
  The state of one run of the aggregator: the simulated stack (\<open>sims->frames[0]\<close> to
  \<open>sims->frames[used - 1]\<close>, the top last), its depth counter, every static frame's
  statistics, and the array \<open>sf_updated\<close>.
\<close>

record agg_state =
  sims_frames :: "SimStackFrame list"
  sims_depth :: "32 word"
  spesh_stats :: stats_store
  sf_updated :: "handle list"

text \<open>The linear searches \<open>for (found = 0; found < n; found++) if (...) return found\<close>.\<close>

fun first_index :: "('a \<Rightarrow> bool) \<Rightarrow> 'a list \<Rightarrow> nat option" where
  "first_index P [] = None"
| "first_index P (x # xs) =
     (if P x then Some 0 else map_option Suc (first_index P xs))"

definition zero_stats :: MVMSpeshStats where
  "zero_stats = \<lparr>ss_by_callsite = [], ss_static_values = [], ss_hits = 0,
     ss_osr_hits = 0, ss_last_update = 0\<rparr>"

definition stats_for :: "stats_store \<Rightarrow> handle \<Rightarrow> MVMSpeshStats" where
  "stats_for stats sf = (case stats sf of None \<Rightarrow> zero_stats | Some ss \<Rightarrow> ss)"

definition zero_by_callsite :: "handle \<Rightarrow> MVMSpeshStatsByCallsite" where
  "zero_by_callsite cs = \<lparr>bcs_cs = cs, bcs_hits = 0, bcs_osr_hits = 0,
     bcs_max_depth = 0, bcs_by_type = []\<rparr>"

definition by_callsite_idx :: "MVMSpeshStats \<Rightarrow> handle \<Rightarrow> nat \<times> MVMSpeshStats" where
  "by_callsite_idx ss cs =
     (case first_index (\<lambda>b. bcs_cs b = cs) (ss_by_callsite ss) of
        Some found \<Rightarrow> (found, ss)
      | None \<Rightarrow> (length (ss_by_callsite ss),
                 ss\<lparr>ss_by_callsite := ss_by_callsite ss @ [zero_by_callsite cs]\<rparr>))"

text \<open>
  \<open>incomplete_type_tuple\<close> and \<open>cs_without_object_args\<close> walk the flags from index
  \<open>0\<close>; the first argument of the loops below is the list of flags still to visit,
  the second the slots of the tuple from the same index on.
\<close>

fun incomplete_type_tuple_loop ::
  "vm_env \<Rightarrow> bool list \<Rightarrow> MVMSpeshStatsType list \<Rightarrow> bool" where
  "incomplete_type_tuple_loop env [] ats = False"
| "incomplete_type_tuple_loop env (is_obj # flags) [] = False"
| "incomplete_type_tuple_loop env (is_obj # flags) (a # ats) =
     (if is_obj then
        (if st_type a = 0 then True
         else if st_type_concrete a \<noteq> 0 \<and> container_spec env (st_type a)
                 \<and> st_decont_type a = 0 then True
         else incomplete_type_tuple_loop env flags ats)
      else incomplete_type_tuple_loop env flags ats)"

definition incomplete_type_tuple ::
  "vm_env \<Rightarrow> handle \<Rightarrow> MVMSpeshStatsType list \<Rightarrow> bool" where
  "incomplete_type_tuple env cs arg_types =
     incomplete_type_tuple_loop env (cs_arg_is_obj env cs) arg_types"

fun cs_without_object_args_loop :: "bool list \<Rightarrow> bool" where
  "cs_without_object_args_loop [] = True"
| "cs_without_object_args_loop (is_obj # flags) =
     (if is_obj then False else cs_without_object_args_loop flags)"

definition cs_without_object_args :: "vm_env \<Rightarrow> handle \<Rightarrow> bool" where
  "cs_without_object_args env cs = cs_without_object_args_loop (cs_arg_is_obj env cs)"

definition zero_by_type :: "MVMSpeshStatsType list \<Rightarrow> MVMSpeshStatsByType" where
  "zero_by_type arg_types = \<lparr>bt_arg_types = arg_types, bt_hits = 0, bt_osr_hits = 0,
     bt_max_depth = 0, bt_by_offset = []\<rparr>"

text \<open>
  \<open>by_type\<close> works on the record \<open>ss->by_callsite[callsite_idx]\<close>.  It returns the
  index of the \<open>MVMSpeshStatsByType\<close> in \<open>css->by_type\<close> (C: a pointer to it), or
  \<open>None\<close> for the C \<open>NULL\<close>, together with the record as it leaves it.  \<open>memcmp\<close>
  over \<open>flag_count\<close> slots is equality of the first \<open>flag_count\<close> slots.  A tuple
  shorter than \<open>flag_count\<close> cannot be built by \<open>sim_stack_push\<close>; reading past its
  end is left out of the model (see \<open>sim_stack_pop\<close>, which checks the length).
\<close>

definition by_type ::
  "vm_env \<Rightarrow> MVMSpeshStatsByCallsite \<Rightarrow> MVMSpeshStatsType list
     \<Rightarrow> nat option \<times> MVMSpeshStatsByCallsite" where
  "by_type env css arg_types =
     (let cs = bcs_cs css in
      if cs = 0 \<or> cs_without_object_args env cs then (None, css)
      else if incomplete_type_tuple env cs arg_types then (None, css)
      else
        (let n = cs_flag_count env cs in
         case first_index (\<lambda>b. take n (bt_arg_types b) = take n arg_types)
                (bcs_by_type css) of
           Some found \<Rightarrow> (Some found, css)
         | None \<Rightarrow> (Some (length (bcs_by_type css)),
                    css\<lparr>bcs_by_type := bcs_by_type css @ [zero_by_type arg_types]\<rparr>)))"

definition zero_by_offset :: "32 word \<Rightarrow> MVMSpeshStatsByOffset" where
  "zero_by_offset bytecode_offset = \<lparr>bo_bytecode_offset = bytecode_offset,
     bo_types = [], bo_values = [], bo_type_tuples = []\<rparr>"

definition by_offset :: "MVMSpeshStatsByType \<Rightarrow> 32 word \<Rightarrow> nat \<times> MVMSpeshStatsByType" where
  "by_offset tss bytecode_offset =
     (case first_index (\<lambda>b. bo_bytecode_offset b = bytecode_offset) (bt_by_offset tss) of
        Some found \<Rightarrow> (found, tss)
      | None \<Rightarrow> (length (bt_by_offset tss),
                 tss\<lparr>bt_by_offset := bt_by_offset tss @ [zero_by_offset bytecode_offset]\<rparr>))"

definition add_type_at_offset ::
  "MVMSpeshStatsByOffset \<Rightarrow> handle \<Rightarrow> 8 word \<Rightarrow> MVMSpeshStatsByOffset" where
  "add_type_at_offset oss type concrete =
     (case first_index (\<lambda>t. tc_type t = type \<and> tc_type_concrete t = concrete)
             (bo_types oss) of
        Some found \<Rightarrow>
          oss\<lparr>bo_types := (bo_types oss)
                 [found := (bo_types oss ! found)
                    \<lparr>tc_count := tc_count (bo_types oss ! found) + 1\<rparr>]\<rparr>
      | None \<Rightarrow>
          oss\<lparr>bo_types := bo_types oss @
                 [\<lparr>tc_type = type, tc_type_concrete = concrete, tc_count = 1\<rparr>]\<rparr>)"

definition add_value_at_offset ::
  "MVMSpeshStatsByOffset \<Rightarrow> handle \<Rightarrow> MVMSpeshStatsByOffset" where
  "add_value_at_offset oss v =
     (case first_index (\<lambda>t. vc_value t = v) (bo_values oss) of
        Some found \<Rightarrow>
          oss\<lparr>bo_values := (bo_values oss)
                 [found := (bo_values oss ! found)
                    \<lparr>vc_count := vc_count (bo_values oss ! found) + 1\<rparr>]\<rparr>
      | None \<Rightarrow>
          oss\<lparr>bo_values := bo_values oss @ [\<lparr>vc_value = v, vc_count = 1\<rparr>]\<rparr>)"

definition add_type_tuple_at_offset ::
  "vm_env \<Rightarrow> MVMSpeshStatsByOffset \<Rightarrow> SimCallType \<Rightarrow> MVMSpeshStatsByOffset" where
  "add_type_tuple_at_offset env oss info =
     (let n = cs_flag_count env (sct_cs info) in
      case first_index (\<lambda>t. ttc_cs t = sct_cs info
                            \<and> take n (ttc_arg_types t) = take n (sct_arg_types info))
             (bo_type_tuples oss) of
        Some found \<Rightarrow>
          oss\<lparr>bo_type_tuples := (bo_type_tuples oss)
                 [found := (bo_type_tuples oss ! found)
                    \<lparr>ttc_count := ttc_count (bo_type_tuples oss ! found) + 1\<rparr>]\<rparr>
      | None \<Rightarrow>
          oss\<lparr>bo_type_tuples := bo_type_tuples oss @
                 [\<lparr>ttc_cs = sct_cs info, ttc_arg_types = take n (sct_arg_types info),
                   ttc_count = 1\<rparr>]\<rparr>)"

section \<open>Stack simulation\<close>

definition sim_stack_init :: "stats_store \<Rightarrow> handle list \<Rightarrow> agg_state" where
  "sim_stack_init stats sink =
     \<lparr>sims_frames = [], sims_depth = 0, spesh_stats = stats, sf_updated = sink\<rparr>"

text \<open>
  \<open>sim_stack_push\<close>; the callsite of the new frame is read from
  \<open>ss->by_callsite[callsite_idx]\<close>.  \<open>None\<close> stands for a read outside that array or
  through a null statistics pointer, which the callers in this file never cause.
\<close>

definition zero_type :: MVMSpeshStatsType where
  "zero_type = \<lparr>st_type = 0, st_type_concrete = 0, st_decont_type = 0,
     st_decont_type_concrete = 0\<rparr>"

definition sim_stack_push ::
  "vm_env \<Rightarrow> agg_state \<Rightarrow> handle \<Rightarrow> 32 word \<Rightarrow> nat \<Rightarrow> agg_state option" where
  "sim_stack_push env s sf cid callsite_idx =
     (case spesh_stats s sf of
        None \<Rightarrow> None
      | Some ss \<Rightarrow>
          if callsite_idx < length (ss_by_callsite ss) then
            (let cs = bcs_cs (ss_by_callsite ss ! callsite_idx);
                 frame = \<lparr>simf_sf = sf, simf_cid = cid, simf_callsite_idx = callsite_idx,
                   simf_arg_types =
                     (if cs \<noteq> 0 then replicate (cs_flag_count env cs) zero_type else []),
                   simf_offset_logs = [], simf_call_type_info = [], simf_osr_hits = 0,
                   simf_last_invoke_offset = 0, simf_last_invoke_code = 0\<rparr>
             in Some (s\<lparr>sims_frames := sims_frames s @ [frame],
                        sims_depth := sims_depth s + 1\<rparr>))
          else None)"

definition add_sim_call_type_info ::
  "SimStackFrame \<Rightarrow> 32 word \<Rightarrow> handle \<Rightarrow> MVMSpeshStatsType list \<Rightarrow> SimStackFrame" where
  "add_sim_call_type_info simf bytecode_offset cs arg_types =
     simf\<lparr>simf_call_type_info := simf_call_type_info simf @
       [\<lparr>sct_bytecode_offset = bytecode_offset, sct_cs = cs, sct_arg_types = arg_types\<rparr>]\<rparr>"

text \<open>The body of the loop over \<open>simf->offset_logs\<close> in \<open>sim_stack_pop\<close>.\<close>

fun incorporate_offset_log ::
  "MVMSpeshStatsByType \<Rightarrow> MVMSpeshLogEntry \<Rightarrow> MVMSpeshStatsByType" where
  "incorporate_offset_log tss (MVM_SPESH_LOG_TYPE i bytecode_offset type flags) =
     (case by_offset tss bytecode_offset of
        (k, tss') \<Rightarrow> tss'\<lparr>bt_by_offset := (bt_by_offset tss')
           [k := add_type_at_offset (bt_by_offset tss' ! k) type (concrete_flag flags)]\<rparr>)"
| "incorporate_offset_log tss (MVM_SPESH_LOG_RETURN i bytecode_offset type flags) =
     (case by_offset tss bytecode_offset of
        (k, tss') \<Rightarrow> tss'\<lparr>bt_by_offset := (bt_by_offset tss')
           [k := add_type_at_offset (bt_by_offset tss' ! k) type (concrete_flag flags)]\<rparr>)"
| "incorporate_offset_log tss (MVM_SPESH_LOG_INVOKE i bytecode_offset v) =
     (case by_offset tss bytecode_offset of
        (k, tss') \<Rightarrow> tss'\<lparr>bt_by_offset := (bt_by_offset tss')
           [k := add_value_at_offset (bt_by_offset tss' ! k) v]\<rparr>)"
| "incorporate_offset_log tss e = tss"

text \<open>The body of the loop over \<open>simf->call_type_info\<close>.\<close>

definition incorporate_call_type ::
  "vm_env \<Rightarrow> MVMSpeshStatsByType \<Rightarrow> SimCallType \<Rightarrow> MVMSpeshStatsByType" where
  "incorporate_call_type env tss info =
     (case by_offset tss (sct_bytecode_offset info) of
        (k, tss') \<Rightarrow> tss'\<lparr>bt_by_offset := (bt_by_offset tss')
           [k := add_type_tuple_at_offset env (bt_by_offset tss' ! k) info]\<rparr>)"

text \<open>
  What \<open>sim_stack_pop\<close> does to the \<open>MVMSpeshStatsByType\<close> it resolved: the two
  loops, then hits, OSR hits and maximum depth.
\<close>

definition fold_into_by_type ::
  "vm_env \<Rightarrow> SimStackFrame \<Rightarrow> 32 word \<Rightarrow> MVMSpeshStatsByType \<Rightarrow> MVMSpeshStatsByType" where
  "fold_into_by_type env simf frame_depth tss =
     (let tss1 = foldl incorporate_offset_log tss (simf_offset_logs simf);
          tss2 = foldl (incorporate_call_type env) tss1 (simf_call_type_info simf);
          tss3 = tss2\<lparr>bt_hits := bt_hits tss2 + 1,
                      bt_osr_hits := bt_osr_hits tss2 + simf_osr_hits simf\<rparr>
      in if frame_depth > bt_max_depth tss3 then tss3\<lparr>bt_max_depth := frame_depth\<rparr>
         else tss3)"

text \<open>
  The callsite-level part of \<open>sim_stack_pop\<close>: OSR hits and maximum depth of
  \<open>ss->by_callsite[callsite_idx]\<close>.
\<close>

definition pop_callsite_level ::
  "SimStackFrame \<Rightarrow> 32 word \<Rightarrow> MVMSpeshStats \<Rightarrow> MVMSpeshStats" where
  "pop_callsite_level simf frame_depth ss =
     (let i = simf_callsite_idx simf;
          ss1 = (if simf_osr_hits simf \<noteq> 0 then
                   ss\<lparr>ss_osr_hits := ss_osr_hits ss + simf_osr_hits simf,
                      ss_by_callsite := (ss_by_callsite ss)
                        [i := (ss_by_callsite ss ! i)
                           \<lparr>bcs_osr_hits := bcs_osr_hits (ss_by_callsite ss ! i)
                                              + simf_osr_hits simf\<rparr>]\<rparr>
                 else ss)
      in if frame_depth > bcs_max_depth (ss_by_callsite ss1 ! i) then
           ss1\<lparr>ss_by_callsite := (ss_by_callsite ss1)
                 [i := (ss_by_callsite ss1 ! i)\<lparr>bcs_max_depth := frame_depth\<rparr>]\<rparr>
         else ss1)"

text \<open>
  The last step of a pop that resolved a type tuple: if the caller's last invocation
  is a concrete code object for the popped frame's static frame, the tuple is logged
  against the caller's callsite.
\<close>

definition log_against_caller ::
  "vm_env \<Rightarrow> SimStackFrame \<Rightarrow> handle \<Rightarrow> MVMSpeshStatsType list
     \<Rightarrow> SimStackFrame list \<Rightarrow> SimStackFrame list" where
  "log_against_caller env simf cs arg_types frames =
     (if frames \<noteq> [] then
        (let caller = last frames; lic = simf_last_invoke_code caller in
         if lic \<noteq> 0 \<and> is_concrete_code env lic \<and> code_sf env lic = simf_sf simf then
           butlast frames @
             [add_sim_call_type_info caller (simf_last_invoke_offset caller) cs arg_types]
         else frames)
      else frames)"

text \<open>
  \<open>sim_stack_pop\<close>.  \<open>None\<close> is the panic on an empty stack, and also a frame whose
  statistics pointer or callsite index is out of range, or whose tuple is shorter than
  the flags of its (non-null) callsite, which C leaves undefined and \<open>sim_stack_push\<close>
  never builds.
\<close>

definition sim_stack_pop :: "vm_env \<Rightarrow> agg_state \<Rightarrow> agg_state option" where
  "sim_stack_pop env s =
     (if sims_frames s = [] then None
      else
        (let simf = last (sims_frames s);
             frames = butlast (sims_frames s);
             frame_depth = sims_depth s;
             depth = sims_depth s - 1;
             i = simf_callsite_idx simf
         in case spesh_stats s (simf_sf simf) of
              None \<Rightarrow> None
            | Some ss \<Rightarrow>
                if \<not> i < length (ss_by_callsite ss) then None
                else if bcs_cs (ss_by_callsite ss ! i) \<noteq> 0
                        \<and> length (simf_arg_types simf)
                              < cs_flag_count env (bcs_cs (ss_by_callsite ss ! i)) then None
                else
                  (let ss1 = pop_callsite_level simf frame_depth ss;
                       css = ss_by_callsite ss1 ! i
                   in case by_type env css (simf_arg_types simf) of
                        (None, css') \<Rightarrow>
                          Some (s\<lparr>sims_frames := frames, sims_depth := depth,
                            spesh_stats := (spesh_stats s)(simf_sf simf \<mapsto>
                              ss1\<lparr>ss_by_callsite := (ss_by_callsite ss1)[i := css']\<rparr>)\<rparr>)
                      | (Some j, css') \<Rightarrow>
                          (let tss = fold_into_by_type env simf frame_depth
                                       (bcs_by_type css' ! j);
                               css'' = css'\<lparr>bcs_by_type := (bcs_by_type css')[j := tss]\<rparr>
                           in Some (s\<lparr>sims_frames :=
                                  log_against_caller env simf (bcs_cs css'')
                                    (bt_arg_types tss) frames,
                                sims_depth := depth,
                                spesh_stats := (spesh_stats s)(simf_sf simf \<mapsto>
                                  ss1\<lparr>ss_by_callsite :=
                                         (ss_by_callsite ss1)[i := css'']\<rparr>)\<rparr>)))))"

text \<open>
  \<open>sim_stack_find\<close>: the search runs from \<open>found_at = used\<close> downwards; the number of
  pops is the C \<open>MVMint32 pop = (sims->used - found_at) - 1\<close>, and the loop
  \<open>for (i = 0; i < pop; i++)\<close> runs \<open>pop\<close> times, or not at all when \<open>pop\<close> is
  negative.
\<close>

primrec find_cid :: "SimStackFrame list \<Rightarrow> nat \<Rightarrow> 32 word \<Rightarrow> nat option" where
  "find_cid frames 0 cid = None"
| "find_cid frames (Suc found_at) cid =
     (if simf_cid (frames ! found_at) = cid then Some found_at
      else find_cid frames found_at cid)"

primrec pop_times :: "vm_env \<Rightarrow> nat \<Rightarrow> agg_state \<Rightarrow> agg_state option" where
  "pop_times env 0 s = Some s"
| "pop_times env (Suc n) s =
     (case sim_stack_pop env s of None \<Rightarrow> None | Some s' \<Rightarrow> pop_times env n s')"

definition sim_stack_find ::
  "vm_env \<Rightarrow> agg_state \<Rightarrow> 32 word \<Rightarrow> (nat option \<times> agg_state) option" where
  "sim_stack_find env s cid =
     (let used = length (sims_frames s) in
      case find_cid (sims_frames s) used cid of
        None \<Rightarrow> Some (None, s)
      | Some found_at \<Rightarrow>
          (let pop = sint ((word_of_nat used - word_of_nat found_at - 1) :: 32 word) in
           case pop_times env (nat pop) s of
             None \<Rightarrow> None
           | Some s' \<Rightarrow> Some (Some found_at, s')))"

text \<open>\<open>sim_stack_destroy\<close>: \<open>while (sims->used) sim_stack_pop(tc, sims)\<close>.\<close>

function sim_stack_destroy :: "vm_env \<Rightarrow> agg_state \<Rightarrow> agg_state option" where
  "sim_stack_destroy env s =
     (if sims_frames s = [] then Some s
      else case sim_stack_pop env s of
             None \<Rightarrow> None
           | Some s' \<Rightarrow> sim_stack_destroy env s')"
  by pat_completeness auto
termination
proof (relation "measure (\<lambda>(env, s). length (sims_frames s))")
  show "wf (measure (\<lambda>(env, s). length (sims_frames s)))" by simp
next
  fix env :: vm_env and s s' :: agg_state
  assume ne: "sims_frames s \<noteq> []" and pop: "sim_stack_pop env s = Some s'"
  have "length (log_against_caller env f cs ats fs) = length fs" for f cs ats fs
    by (cases "fs = []") (simp_all add: log_against_caller_def Let_def)
  with pop ne have "length (sims_frames s') = length (sims_frames s) - 1"
    by (auto simp: sim_stack_pop_def Let_def split: option.splits if_splits prod.splits)
  with ne show "((env, s'), (env, s)) \<in> measure (\<lambda>(env, s). length (sims_frames s))"
    by (cases "sims_frames s") simp_all
qed

section \<open>\<open>MVM_spesh_stats_update\<close>\<close>

text \<open>
  \<open>param_type\<close>: \<open>None\<close> is the panic "argument flag index out of bounds" (or a read
  through a frame that \<open>sim_stack_push\<close> cannot have built), \<open>Some None\<close> the C
  \<open>NULL\<close>, \<open>Some (Some k)\<close> the slot \<open>&simf->arg_types[k]\<close>.  The index is computed
  on C \<open>int\<close>s, where \<open>/\<close> truncates towards zero.
\<close>

definition c_half :: "int \<Rightarrow> int" where
  "c_half a = (if a < 0 then - ((- a) div 2) else a div 2)"

definition param_type ::
  "vm_env \<Rightarrow> agg_state \<Rightarrow> SimStackFrame \<Rightarrow> 16 word \<Rightarrow> nat option option" where
  "param_type env s simf arg_idx =
     (case spesh_stats s (simf_sf simf) of
        None \<Rightarrow> None
      | Some ss \<Rightarrow>
          if \<not> simf_callsite_idx simf < length (ss_by_callsite ss) then None
          else
            (let idx = uint arg_idx;
                 cs = bcs_cs (ss_by_callsite ss ! simf_callsite_idx simf)
             in if cs \<noteq> 0 then
                  (let num_pos = uint (cs_num_pos env cs);
                       flag_idx = (if idx < num_pos then idx
                                   else num_pos + c_half ((idx - 1) - num_pos))
                   in if flag_idx \<ge> int (cs_flag_count env cs) then None
                      else if cs_arg_is_obj env cs ! nat flag_idx
                           then Some (Some (nat flag_idx))
                      else Some None)
                else Some None))"

definition add_static_value :: "MVMSpeshStats \<Rightarrow> 32 word \<Rightarrow> handle \<Rightarrow> MVMSpeshStats" where
  "add_static_value ss bytecode_offset v =
     (case first_index (\<lambda>x. sv_bytecode_offset x = bytecode_offset)
             (ss_static_values ss) of
        Some i \<Rightarrow> ss
      | None \<Rightarrow> ss\<lparr>ss_static_values := ss_static_values ss @
                  [\<lparr>sv_value = v, sv_bytecode_offset = bytecode_offset\<rparr>]\<rparr>)"

text \<open>The branch \<open>case MVM_SPESH_LOG_ENTRY\<close> of the loop.\<close>

definition update_entry :: "vm_env \<Rightarrow> agg_state \<Rightarrow> 32 word \<Rightarrow> handle \<Rightarrow> handle
    \<Rightarrow> agg_state option" where
  "update_entry env s i sf cs =
     (let ss = stats_for (spesh_stats s) sf;
          changed = (ss_last_update ss \<noteq> spesh_stats_version env);
          ss1 = (if changed then ss\<lparr>ss_last_update := spesh_stats_version env\<rparr> else ss);
          sink = (if changed then sf_updated s @ [sf] else sf_updated s);
          ss2 = ss1\<lparr>ss_hits := ss_hits ss1 + 1\<rparr>
      in case by_callsite_idx ss2 cs of
           (callsite_idx, ss3) \<Rightarrow>
             (let ss4 = ss3\<lparr>ss_by_callsite := (ss_by_callsite ss3)
                          [callsite_idx := (ss_by_callsite ss3 ! callsite_idx)
                             \<lparr>bcs_hits := bcs_hits (ss_by_callsite ss3 ! callsite_idx) + 1\<rparr>]\<rparr>
              in sim_stack_push env
                   (s\<lparr>spesh_stats := (spesh_stats s)(sf \<mapsto> ss4), sf_updated := sink\<rparr>)
                   sf i callsite_idx))"

text \<open>
  What each kind of entry does to the frame \<open>simf = &sims->frames[found_at]\<close> that
  \<open>sim_stack_find\<close> returned.
\<close>

definition set_frame :: "agg_state \<Rightarrow> nat \<Rightarrow> SimStackFrame \<Rightarrow> agg_state" where
  "set_frame s found_at simf = s\<lparr>sims_frames := (sims_frames s)[found_at := simf]\<rparr>"

definition apply_parameter ::
  "vm_env \<Rightarrow> agg_state \<Rightarrow> nat \<Rightarrow> bool \<Rightarrow> 16 word \<Rightarrow> handle \<Rightarrow> 32 word
     \<Rightarrow> agg_state option" where
  "apply_parameter env s found_at decont arg_idx type flags =
     (let simf = sims_frames s ! found_at in
      case param_type env s simf arg_idx of
        None \<Rightarrow> None
      | Some None \<Rightarrow> Some s
      | Some (Some k) \<Rightarrow>
          (let slot = simf_arg_types simf ! k;
               slot' = (if decont
                        then slot\<lparr>st_decont_type := type,
                                  st_decont_type_concrete := concrete_flag flags\<rparr>
                        else slot\<lparr>st_type := type,
                                  st_type_concrete := concrete_flag flags\<rparr>)
           in Some (set_frame s found_at
                (simf\<lparr>simf_arg_types := (simf_arg_types simf)[k := slot']\<rparr>))))"

definition apply_offset_log ::
  "agg_state \<Rightarrow> nat \<Rightarrow> MVMSpeshLogEntry \<Rightarrow> agg_state" where
  "apply_offset_log s found_at e =
     (let simf = sims_frames s ! found_at;
          simf1 = simf\<lparr>simf_offset_logs := simf_offset_logs simf @ [e]\<rparr>
      in set_frame s found_at
           (case e of
              MVM_SPESH_LOG_INVOKE i bytecode_offset v \<Rightarrow>
                simf1\<lparr>simf_last_invoke_offset := bytecode_offset,
                      simf_last_invoke_code := v\<rparr>
            | _ \<Rightarrow> simf1))"

definition apply_osr :: "agg_state \<Rightarrow> nat \<Rightarrow> agg_state" where
  "apply_osr s found_at =
     (let simf = sims_frames s ! found_at in
      set_frame s found_at (simf\<lparr>simf_osr_hits := simf_osr_hits simf + 1\<rparr>))"

definition apply_static :: "agg_state \<Rightarrow> nat \<Rightarrow> 32 word \<Rightarrow> handle \<Rightarrow> agg_state option" where
  "apply_static s found_at bytecode_offset v =
     (let simf = sims_frames s ! found_at in
      case spesh_stats s (simf_sf simf) of
        None \<Rightarrow> None
      | Some ss \<Rightarrow>
          Some (s\<lparr>spesh_stats := (spesh_stats s)
                  (simf_sf simf \<mapsto> add_static_value ss bytecode_offset v)\<rparr>))"

text \<open>
  \<open>case MVM_SPESH_LOG_RETURN\<close>: the frame is popped; if the entry carries a type and
  the caller left on top last invoked a concrete code object of the popped frame's
  static frame, the entry, with its offset overwritten by the caller's
  \<open>last_invoke_offset\<close>, joins the caller's offset logs.
\<close>

definition attribute_return ::
  "vm_env \<Rightarrow> handle \<Rightarrow> 32 word \<Rightarrow> handle \<Rightarrow> 32 word \<Rightarrow> agg_state \<Rightarrow> agg_state" where
  "attribute_return env called_sf i type flags s =
     (if type \<noteq> 0 \<and> sims_frames s \<noteq> [] then
        (let caller = last (sims_frames s); lic = simf_last_invoke_code caller in
         if lic \<noteq> 0 \<and> is_concrete_code env lic \<and> called_sf = code_sf env lic then
           s\<lparr>sims_frames := butlast (sims_frames s) @
               [caller\<lparr>simf_offset_logs := simf_offset_logs caller @
                  [MVM_SPESH_LOG_RETURN i (simf_last_invoke_offset caller) type flags]\<rparr>]\<rparr>
         else s)
      else s)"

definition apply_return ::
  "vm_env \<Rightarrow> agg_state \<Rightarrow> nat \<Rightarrow> 32 word \<Rightarrow> handle \<Rightarrow> 32 word \<Rightarrow> agg_state option" where
  "apply_return env s found_at i type flags =
     (let called_sf = simf_sf (sims_frames s ! found_at) in
      case sim_stack_pop env s of
        None \<Rightarrow> None
      | Some s' \<Rightarrow> Some (attribute_return env called_sf i type flags s'))"

fun entry_id :: "MVMSpeshLogEntry \<Rightarrow> 32 word" where
  "entry_id (MVM_SPESH_LOG_ENTRY i sf cs) = i"
| "entry_id (MVM_SPESH_LOG_PARAMETER i arg_idx type flags) = i"
| "entry_id (MVM_SPESH_LOG_PARAMETER_DECONT i arg_idx type flags) = i"
| "entry_id (MVM_SPESH_LOG_TYPE i bytecode_offset type flags) = i"
| "entry_id (MVM_SPESH_LOG_INVOKE i bytecode_offset v) = i"
| "entry_id (MVM_SPESH_LOG_OSR i) = i"
| "entry_id (MVM_SPESH_LOG_STATIC i bytecode_offset v) = i"
| "entry_id (MVM_SPESH_LOG_RETURN i bytecode_offset type flags) = i"

text \<open>The entry applied to the frame found, one equation per \<open>case\<close> of the switch.\<close>

fun apply_to_frame ::
  "vm_env \<Rightarrow> agg_state \<Rightarrow> nat \<Rightarrow> MVMSpeshLogEntry \<Rightarrow> agg_state option" where
  "apply_to_frame env s found_at (MVM_SPESH_LOG_ENTRY i sf cs) = Some s"
| "apply_to_frame env s found_at (MVM_SPESH_LOG_PARAMETER i arg_idx type flags) =
     apply_parameter env s found_at False arg_idx type flags"
| "apply_to_frame env s found_at (MVM_SPESH_LOG_PARAMETER_DECONT i arg_idx type flags) =
     apply_parameter env s found_at True arg_idx type flags"
| "apply_to_frame env s found_at (MVM_SPESH_LOG_TYPE i bytecode_offset type flags) =
     Some (apply_offset_log s found_at (MVM_SPESH_LOG_TYPE i bytecode_offset type flags))"
| "apply_to_frame env s found_at (MVM_SPESH_LOG_INVOKE i bytecode_offset v) =
     Some (apply_offset_log s found_at (MVM_SPESH_LOG_INVOKE i bytecode_offset v))"
| "apply_to_frame env s found_at (MVM_SPESH_LOG_OSR i) = Some (apply_osr s found_at)"
| "apply_to_frame env s found_at (MVM_SPESH_LOG_STATIC i bytecode_offset v) =
     apply_static s found_at bytecode_offset v"
| "apply_to_frame env s found_at (MVM_SPESH_LOG_RETURN i bytecode_offset type flags) =
     apply_return env s found_at i type flags"

text \<open>One iteration of the loop over the log.\<close>

fun update_event :: "vm_env \<Rightarrow> agg_state \<Rightarrow> MVMSpeshLogEntry \<Rightarrow> agg_state option" where
  "update_event env s (MVM_SPESH_LOG_ENTRY i sf cs) = update_entry env s i sf cs"
| "update_event env s e =
     (case sim_stack_find env s (entry_id e) of
        None \<Rightarrow> None
      | Some (None, s') \<Rightarrow> Some s'
      | Some (Some found_at, s') \<Rightarrow> apply_to_frame env s' found_at e)"

fun update_loop :: "vm_env \<Rightarrow> agg_state \<Rightarrow> MVMSpeshLogEntry list \<Rightarrow> agg_state option" where
  "update_loop env s [] = Some s"
| "update_loop env s (e # es) =
     (case update_event env s e of None \<Rightarrow> None | Some s' \<Rightarrow> update_loop env s' es)"

definition MVM_spesh_stats_update ::
  "vm_env \<Rightarrow> MVMSpeshLogEntry list \<Rightarrow> stats_store \<Rightarrow> handle list
     \<Rightarrow> (stats_store \<times> handle list) option" where
  "MVM_spesh_stats_update env sl stats sf_updated0 =
     (case update_loop env (sim_stack_init stats sf_updated0) sl of
        None \<Rightarrow> None
      | Some s \<Rightarrow>
          (case sim_stack_destroy env s of
             None \<Rightarrow> None
           | Some s' \<Rightarrow> Some (spesh_stats s', sf_updated s')))"

section \<open>Notions used in the statements\<close>

text \<open>The kind \<open>MVM_SPESH_LOG_ENTRY\<close>.\<close>

fun is_entry :: "MVMSpeshLogEntry \<Rightarrow> bool" where
  "is_entry (MVM_SPESH_LOG_ENTRY i sf cs) = True"
| "is_entry e = False"


text \<open>
  A slot of an argument tuple that makes the tuple incomplete, as
  \<open>incomplete_type_tuple\<close> tests it: no type, or a concrete container type without a
  decont type.
\<close>

definition slot_missing :: "vm_env \<Rightarrow> MVMSpeshStatsType \<Rightarrow> bool" where
  "slot_missing env a \<longleftrightarrow> st_type a = 0 \<or>
     (st_type_concrete a \<noteq> 0 \<and> container_spec env (st_type a) \<and> st_decont_type a = 0)"


text \<open>
  Between two states, the array \<open>sf_updated\<close> is the same, and the same static frames
  have statistics, each with the same \<open>last_update\<close>.
\<close>

definition marks_kept :: "agg_state \<Rightarrow> agg_state \<Rightarrow> bool" where
  "marks_kept s s' \<longleftrightarrow> sf_updated s' = sf_updated s \<and>
     (\<forall>sf. map_option ss_last_update (spesh_stats s' sf)
             = map_option ss_last_update (spesh_stats s sf))"


text \<open>
  No statistics record is stamped with more than the global version.  The records
  are born with \<open>last_update = 0\<close> (\<open>MVM_calloc\<close> in \<open>stats_for\<close>) and the only
  assignment to the field stores the version, which never decreases.
\<close>

definition stamps_bounded :: "vm_env \<Rightarrow> agg_state \<Rightarrow> bool" where
  "stamps_bounded env s \<longleftrightarrow>
     (\<forall>sf ss. spesh_stats s sf = Some ss \<longrightarrow> ss_last_update ss \<le> spesh_stats_version env)"


text \<open>
  The frames pushed so far, after the caller's \<open>sink0\<close>, are pairwise different and
  each has statistics stamped with the current version.
\<close>

definition pushed_once :: "vm_env \<Rightarrow> handle list \<Rightarrow> agg_state \<Rightarrow> bool" where
  "pushed_once env sink0 s \<longleftrightarrow>
     (\<exists>pushed. sf_updated s = sink0 @ pushed \<and> distinct pushed \<and>
        (\<forall>sf\<in>set pushed. \<exists>ss. spesh_stats s sf = Some ss
             \<and> ss_last_update ss = spesh_stats_version env))"


section \<open>Example inputs\<close>

text \<open>
  A VM in which callsite \<open>5\<close> has one object argument, no type is a container, the
  object \<open>20\<close> is a concrete code object of static frame \<open>2\<close>, and the statistics
  version is \<open>3\<close>; frames, statistics and states built over it; a log of a call from
  frame \<open>1\<close> into frame \<open>2\<close> that returns a type, followed by a second entry of
  frame \<open>1\<close>; a store in which frame \<open>1\<close> has statistics last updated at version \<open>2\<close>.
\<close>

definition ex_env :: vm_env where
  "ex_env = \<lparr>cs_arg_is_obj = (\<lambda>cs. if cs = 5 then [True] else []), cs_num_pos = (\<lambda>cs. 1),
     container_spec = (\<lambda>t. False), is_concrete_code = (\<lambda>c. c = 20),
     code_sf = (\<lambda>c. 2), spesh_stats_version = 3\<rparr>"

definition ex_frame :: "handle \<Rightarrow> 32 word \<Rightarrow> MVMSpeshStatsType list \<Rightarrow> SimStackFrame" where
  "ex_frame sf cid ats = \<lparr>simf_sf = sf, simf_cid = cid, simf_callsite_idx = 0,
     simf_arg_types = ats, simf_offset_logs = [], simf_call_type_info = [],
     simf_osr_hits = 0, simf_last_invoke_offset = 0, simf_last_invoke_code = 0\<rparr>"

definition ex_stats :: "handle \<Rightarrow> 64 word \<Rightarrow> MVMSpeshStats" where
  "ex_stats cs v = \<lparr>ss_by_callsite = [zero_by_callsite cs], ss_static_values = [],
     ss_hits = 0, ss_osr_hits = 0, ss_last_update = v\<rparr>"

definition ex_state :: "MVMSpeshStatsType list \<Rightarrow> handle \<Rightarrow> agg_state" where
  "ex_state ats cs = \<lparr>sims_frames = [ex_frame 1 1 ats, ex_frame 2 2 ats], sims_depth = 2,
     spesh_stats = (\<lambda>sf. if sf = 1 \<or> sf = 2 then Some (ex_stats cs 3) else None),
     sf_updated = []\<rparr>"

definition ex_old_store :: stats_store where
  "ex_old_store = (\<lambda>sf. if sf = 1 then Some (ex_stats 5 2) else None)"

definition ex_log :: "MVMSpeshLogEntry list" where
  "ex_log = [MVM_SPESH_LOG_ENTRY 1 1 5, MVM_SPESH_LOG_PARAMETER 1 0 9 1,
     MVM_SPESH_LOG_INVOKE 1 42 20, MVM_SPESH_LOG_ENTRY 2 2 5,
     MVM_SPESH_LOG_PARAMETER 2 0 9 1, MVM_SPESH_LOG_RETURN 2 7 11 1,
     MVM_SPESH_LOG_ENTRY 3 1 5]"


section \<open>Notions used in the statements on return attribution\<close>

text \<open>
  A type with its concrete flag is among the type counts of a by-offset record; a
  by-type record has a by-offset record for the given offset where it is.
\<close>

definition type_seen :: "MVMSpeshStatsByOffset \<Rightarrow> handle \<Rightarrow> 8 word \<Rightarrow> bool" where
  "type_seen oss type concrete \<longleftrightarrow>
     list_ex (\<lambda>t. tc_type t = type \<and> tc_type_concrete t = concrete) (bo_types oss)"

definition type_seen_at ::
  "MVMSpeshStatsByType \<Rightarrow> 32 word \<Rightarrow> handle \<Rightarrow> 8 word \<Rightarrow> bool" where
  "type_seen_at tss bytecode_offset type concrete \<longleftrightarrow>
     list_ex (\<lambda>oss. bo_bytecode_offset oss = bytecode_offset \<and> type_seen oss type concrete)
       (bt_by_offset tss)"


text \<open>A buffered \<open>TYPE\<close> or \<open>RETURN\<close> entry with the given offset, type and flags.\<close>

fun is_type_log :: "MVMSpeshLogEntry \<Rightarrow> 32 word \<Rightarrow> handle \<Rightarrow> 32 word \<Rightarrow> bool" where
  "is_type_log (MVM_SPESH_LOG_TYPE i off' t' fl') off t fl \<longleftrightarrow> off' = off \<and> t' = t \<and> fl' = fl"
| "is_type_log (MVM_SPESH_LOG_RETURN i off' t' fl') off t fl \<longleftrightarrow> off' = off \<and> t' = t \<and> fl' = fl"
| "is_type_log e off t fl \<longleftrightarrow> False"


text \<open>
  The callsite \<open>simf->ss->by_callsite[simf->callsite_idx].cs\<close> of a frame;
  a frame that keeps its identity and loses no buffered log entry; a stack on which
  every position present before and after holds such a frame.
\<close>

definition frame_callsite :: "agg_state \<Rightarrow> SimStackFrame \<Rightarrow> handle option" where
  "frame_callsite s simf =
     (case spesh_stats s (simf_sf simf) of
        None \<Rightarrow> None
      | Some ss \<Rightarrow>
          if simf_callsite_idx simf < length (ss_by_callsite ss)
          then Some (bcs_cs (ss_by_callsite ss ! simf_callsite_idx simf)) else None)"

definition frame_grows :: "SimStackFrame \<Rightarrow> SimStackFrame \<Rightarrow> bool" where
  "frame_grows f f' \<longleftrightarrow> simf_sf f' = simf_sf f \<and> simf_cid f' = simf_cid f
     \<and> simf_callsite_idx f' = simf_callsite_idx f
     \<and> set (simf_offset_logs f) \<subseteq> set (simf_offset_logs f')"

definition stack_grows :: "agg_state \<Rightarrow> agg_state \<Rightarrow> bool" where
  "stack_grows s s' \<longleftrightarrow>
     (\<forall>k. k < length (sims_frames s) \<and> k < length (sims_frames s') \<longrightarrow>
        frame_grows (sims_frames s ! k) (sims_frames s' ! k))"


text \<open>
  Runs over the example VM: the log of a call from frame \<open>1\<close> (callsite \<open>cs\<close>, last
  invocation the code object \<open>20\<close> at offset \<open>42\<close>) into frame \<open>2\<close>; the state after
  it; after frame \<open>2\<close> has entered a frame \<open>3\<close> in turn; after the return of a type
  \<open>11\<close> from frame \<open>2\<close>, which is then no longer on top; after a further entry; after
  the frames above the caller are popped; after the caller is popped.
\<close>

definition no_stats :: stats_store where
  "no_stats = (\<lambda>sf. None)"

definition by_types_of ::
  "(stats_store \<times> handle list) option \<Rightarrow> handle \<Rightarrow> MVMSpeshStatsByType list list option" where
  "by_types_of r sf =
     (case r of None \<Rightarrow> None
      | Some (stats, sink) \<Rightarrow>
          (case stats sf of None \<Rightarrow> None
           | Some ss \<Rightarrow> Some (map bcs_by_type (ss_by_callsite ss))))"

definition ex_call_log :: "handle \<Rightarrow> MVMSpeshLogEntry list" where
  "ex_call_log cs = [MVM_SPESH_LOG_ENTRY 1 1 cs, MVM_SPESH_LOG_PARAMETER 1 0 9 1,
     MVM_SPESH_LOG_INVOKE 1 42 20, MVM_SPESH_LOG_ENTRY 2 2 cs,
     MVM_SPESH_LOG_PARAMETER 2 0 9 1]"

definition ex_called :: "handle \<Rightarrow> agg_state" where
  "ex_called cs = the (update_loop ex_env (sim_stack_init no_stats []) (ex_call_log cs))"

definition ex_deeper :: agg_state where
  "ex_deeper = the (update_event ex_env (ex_called 5) (MVM_SPESH_LOG_ENTRY 3 3 5))"

definition ex_returned :: agg_state where
  "ex_returned = the (update_event ex_env ex_deeper (MVM_SPESH_LOG_RETURN 2 7 11 1))"

definition ex_later :: agg_state where
  "ex_later = the (update_loop ex_env ex_returned [MVM_SPESH_LOG_ENTRY 4 2 5])"

definition ex_on_top :: agg_state where
  "ex_on_top = the (pop_times ex_env 1 ex_later)"

definition ex_popped :: agg_state where
  "ex_popped = the (sim_stack_pop ex_env ex_on_top)"


section \<open>Robin Hood hash tables\<close>

text \<open>
  Modelled from the spec: the definition of \<open>MVM_HASH_MAX_PROBE_DISTANCE\<close> is not among
  the sources ("\<open>MAX_PROBE_DISTANCE = 255\<close>").
\<close>

definition MVM_HASH_MAX_PROBE_DISTANCE :: nat where
  "MVM_HASH_MAX_PROBE_DISTANCE = 255"

text \<open>
  The ways a call does not return: the two \<open>MVM_oops\<close> of the sources; a read or
  write outside the allocated arrays, which C leaves undefined; and \<open>MVM_free\<close> of a
  pointer that is not the start of an allocated block, undefined as well.  The
  \<open>assert\<close>s of the probe loops are not part of the model (a build with \<open>NDEBUG\<close>).
\<close>

datatype hash_error = Oops_recursive_grow | Oops_insert_conflict | Out_of_bounds | Invalid_free

subsection \<open>The pointer hash table\<close>

text \<open>
  Keys (\<open>const void *\<close>, \<open>0\<close> for \<open>NULL\<close>) and values (\<open>uintptr_t\<close>) are 64-bit words;
  the counters are \<open>MVMHashNumItems\<close>, taken as 32 bits wide, the width
  \<open>hash_true_size\<close> returns.  The two arrays of a table are held by slot:
  \<open>ptr_entries control ! i\<close> is the entry that C addresses as
  \<open>MVM_ptr_hash_entries(control) - i * sizeof(struct MVMPtrHashEntry)\<close>, and
  \<open>ptr_metadata control ! i\<close> is \<open>MVM_ptr_hash_metadata(control)[i]\<close>; the metadata
  end with the sentinel byte \<open>1\<close> (the other sentinel, at index \<open>-1\<close>, is read by
  nothing modelled here).  A pointer to an entry is its slot number.  Memory that
  \<open>MVM_malloc\<close> returns is taken as zero-filled.
\<close>

record MVMPtrHashEntry =
  phe_key :: "64 word"
  phe_value :: "64 word"

record MVMPtrHashTableControl =
  ptr_cur_items :: "32 word"
  ptr_max_items :: "32 word"
  ptr_official_size :: "32 word"
  ptr_key_right_shift :: "8 word"
  ptr_entries :: "MVMPtrHashEntry list"
  ptr_metadata :: "8 word list"


definition PTR_INITIAL_SIZE :: "32 word" where
  "PTR_INITIAL_SIZE = 8"

definition PTR_INITIAL_KEY_RIGHT_SHIFT :: "8 word" where
  "PTR_INITIAL_KEY_RIGHT_SHIFT = 8 * 8 - 3"

text \<open>
  \<open>official_size * PTR_LOAD_FACTOR\<close> (and \<open>UNI_LOAD_FACTOR\<close>), both \<open>0.75\<close>, converted back
  to 32 bits: the product of a 32-bit integer and \<open>0.75\<close> is exact in double
  precision, and the conversion truncates.
\<close>

definition times_load_factor :: "32 word \<Rightarrow> 32 word" where
  "times_load_factor official_size = word_of_nat ((3 * unat official_size) div 4)"

text \<open>\<open>hash_true_size\<close> of the pointer hash table, in unsigned 32-bit arithmetic.\<close>

definition ptr_hash_true_size :: "MVMPtrHashTableControl \<Rightarrow> 32 word" where
  "ptr_hash_true_size control =
     (let true_size = ptr_official_size control + ptr_max_items control - 1 in
      if ptr_official_size control + word_of_nat MVM_HASH_MAX_PROBE_DISTANCE < true_size
      then ptr_official_size control + word_of_nat MVM_HASH_MAX_PROBE_DISTANCE
      else true_size)"

definition null_entry :: MVMPtrHashEntry where
  "null_entry = \<lparr>phe_key = 0, phe_value = 0\<rparr>"

definition ptr_hash_allocate_common :: "MVMPtrHashTableControl \<Rightarrow> MVMPtrHashTableControl" where
  "ptr_hash_allocate_common control =
     (let control1 = control\<lparr>ptr_max_items := times_load_factor (ptr_official_size control)\<rparr>;
          actual_items = unat (ptr_hash_true_size control1)
      in control1\<lparr>ptr_entries := replicate actual_items null_entry,
                   ptr_metadata := replicate actual_items 0 @ [1]\<rparr>)"

definition ptr_hash_initial_allocate :: "MVMPtrHashTableControl \<Rightarrow> MVMPtrHashTableControl" where
  "ptr_hash_initial_allocate control =
     ptr_hash_allocate_common
       (control\<lparr>ptr_key_right_shift := PTR_INITIAL_KEY_RIGHT_SHIFT,
                ptr_official_size := PTR_INITIAL_SIZE\<rparr>)"

definition ptr_hash_grow :: "MVMPtrHashTableControl \<Rightarrow> MVMPtrHashTableControl" where
  "ptr_hash_grow control =
     ptr_hash_allocate_common
       (control\<lparr>ptr_key_right_shift := ptr_key_right_shift control - 1,
                ptr_official_size := ptr_official_size control * 2\<rparr>)"



subsection \<open>The probe loops\<close>

text \<open>
  The loops of \<open>hash_insert_internal\<close> and of the fetch functions walk the metadata
  upwards and the entries downwards in memory, one slot per step; here they recurse
  over the two arrays from the bucket on.  The two \<open>hash_insert_internal\<close> of the
  sources are the same text but for the entry type and the test for the key, which
  are the parameters \<open>same_key\<close> (the comparison in \<open>if ( *metadata == probe_distance)\<close>)
  and \<open>null_key\<close> (\<open>entry->key = NULL\<close>).

  \<open>gap_loop\<close> is the \<open>do ... while (old_probe_distance)\<close> that makes room: given the byte
  at the insertion slot and the bytes after it, it returns the bytes after the slot as
  the loop leaves them, the number of iterations (\<open>find_me_a_gap - metadata\<close>), and
  whether an incremented distance reached \<open>MVM_HASH_MAX_PROBE_DISTANCE\<close> (which sets
  \<open>max_items\<close> to \<open>0\<close>).  \<open>new_probe_distance\<close> is an \<open>MVMuint8\<close>.
\<close>

fun gap_loop :: "8 word \<Rightarrow> 8 word list \<Rightarrow> (8 word list \<times> nat \<times> bool) option" where
  "gap_loop old_probe_distance [] = None"
| "gap_loop old_probe_distance (m # ms) =
     (let new_probe_distance = 1 + old_probe_distance;
          forced = (unat new_probe_distance = MVM_HASH_MAX_PROBE_DISTANCE)
      in if m \<noteq> 0 then
           (case gap_loop m ms of
              None \<Rightarrow> None
            | Some (ms', n, f) \<Rightarrow> Some (new_probe_distance # ms', Suc n, forced \<or> f))
         else Some (new_probe_distance # ms, 1, forced))"

text \<open>
  What the insert loop returns, relative to the bucket: the slot of an entry with the
  key; or the metadata and entries from the bucket on after a slot was claimed, that
  slot, and whether \<open>max_items\<close> is to be zeroed; or a run past the arrays.
  \<open>memmove\<close> moves the \<open>entries_to_move\<close> entries from the claimed slot on by one slot,
  the claimed slot keeps its old content, and its key is nulled.
\<close>

datatype 'e probe_result =
    Found nat
  | Inserted "8 word list" "'e list" nat bool
  | Overrun

fun hash_insert_internal_loop ::
  "('e \<Rightarrow> bool) \<Rightarrow> ('e \<Rightarrow> 'e) \<Rightarrow> nat \<Rightarrow> 8 word list \<Rightarrow> 'e list \<Rightarrow> 'e probe_result" where
  "hash_insert_internal_loop same_key null_key probe_distance [] es = Overrun"
| "hash_insert_internal_loop same_key null_key probe_distance (m # ms) [] = Overrun"
| "hash_insert_internal_loop same_key null_key probe_distance (m # ms) (e # es) =
     (if unat m < probe_distance then
        (if m = 0 then
           Inserted (word_of_nat probe_distance # ms) (null_key e # es) 0
             (probe_distance = MVM_HASH_MAX_PROBE_DISTANCE)
         else
           (case gap_loop m ms of
              None \<Rightarrow> Overrun
            | Some (ms', n, forced) \<Rightarrow>
                if length es < n then Overrun
                else Inserted (word_of_nat probe_distance # ms')
                       (null_key e # take n (e # es) @ drop n es) 0
                       (forced \<or> probe_distance = MVM_HASH_MAX_PROBE_DISTANCE)))
      else if unat m = probe_distance \<and> same_key e then Found 0
      else
        (case hash_insert_internal_loop same_key null_key (probe_distance + 1) ms es of
           Found k \<Rightarrow> Found (Suc k)
         | Inserted ms' es' k forced \<Rightarrow> Inserted (m # ms') (e # es') (Suc k) forced
         | Overrun \<Rightarrow> Overrun))"

text \<open>
  The loop of \<open>MVM_ptr_hash_fetch\<close>: \<open>Inr (Some k)\<close> is the entry \<open>k\<close> slots after the
  bucket, \<open>Inr None\<close> is \<open>NULL\<close>.
\<close>

fun hash_fetch_loop ::
  "('e \<Rightarrow> bool) \<Rightarrow> nat \<Rightarrow> 8 word list \<Rightarrow> 'e list \<Rightarrow> hash_error + nat option" where
  "hash_fetch_loop same_key probe_distance [] es = Inl Out_of_bounds"
| "hash_fetch_loop same_key probe_distance (m # ms) es =
     (if unat m = probe_distance then
        (case es of
           [] \<Rightarrow> Inl Out_of_bounds
         | e # es' \<Rightarrow>
             if same_key e then Inr (Some 0)
             else map_sum id (map_option Suc)
                    (hash_fetch_loop same_key (probe_distance + 1) ms es'))
      else if unat m < probe_distance then Inr None
      else map_sum id (map_option Suc)
             (hash_fetch_loop same_key (probe_distance + 1) ms (tl es)))"

subsection \<open>Operations of the pointer hash table\<close>




text \<open>The control structure as \<open>MVM_calloc\<close> returns it.\<close>

definition zero_control :: MVMPtrHashTableControl where
  "zero_control = \<lparr>ptr_cur_items = 0, ptr_max_items = 0, ptr_official_size = 0,
     ptr_key_right_shift = 0, ptr_entries = [], ptr_metadata = []\<rparr>"






subsection \<open>The hash table of Unicode names\<close>

text \<open>
  Keys are C strings; the key of an entry is \<open>None\<close> for \<open>NULL\<close>.
  \<open>MVM_uni_hash_code\<close> and \<open>MVM_round_up_log_base2\<close> are not among the sources and are
  parameters of the functions that call them.
\<close>

record MVMUniHashEntry =
  uhe_key :: "string option"
  uhe_hash_val :: "32 word"
  uhe_value :: "32 word"

record MVMUniHashTableControl =
  uni_cur_items :: "32 word"
  uni_max_items :: "32 word"
  uni_official_size :: "32 word"
  uni_key_right_shift :: "8 word"
  uni_probe_overflow_size :: "8 word"
  uni_entries :: "MVMUniHashEntry list"
  uni_metadata :: "8 word list"

type_synonym MVMUniHashTable = "MVMUniHashTableControl option"

definition UNI_MIN_SIZE_BASE_2 :: "32 word" where
  "UNI_MIN_SIZE_BASE_2 = 3"

definition uni_hash_true_size :: "MVMUniHashTableControl \<Rightarrow> 32 word" where
  "uni_hash_true_size control =
     uni_official_size control + ucast (uni_probe_overflow_size control)"

definition uni_null_entry :: MVMUniHashEntry where
  "uni_null_entry = \<lparr>uhe_key = None, uhe_hash_val = 0, uhe_value = 0\<rparr>"

definition uni_hash_allocate_common :: "8 word \<Rightarrow> 32 word \<Rightarrow> MVMUniHashTableControl" where
  "uni_hash_allocate_common key_right_shift official_size =
     (let max_items = times_load_factor official_size;
          overflow_size = max_items - 1;
          probe_overflow_size =
            (if word_of_nat MVM_HASH_MAX_PROBE_DISTANCE < overflow_size
             then word_of_nat (MVM_HASH_MAX_PROBE_DISTANCE - 1)
             else ucast overflow_size) :: 8 word;
          actual_items = unat (official_size + ucast probe_overflow_size)
      in \<lparr>uni_cur_items = 0, uni_max_items = max_items, uni_official_size = official_size,
          uni_key_right_shift = key_right_shift, uni_probe_overflow_size = probe_overflow_size,
          uni_entries = replicate actual_items uni_null_entry,
          uni_metadata = replicate actual_items 0 @ [1]\<rparr>)"

text \<open>
  \<open>entries * (1.0 / UNI_LOAD_FACTOR)\<close> converted to 32 bits: in double precision
  \<open>1.0 / 0.75\<close> lies below \<open>4/3\<close> by a third of a unit in the last place, the product
  with a 32-bit integer rounds to \<open>4 * entries / 3\<close> where that is an integer and
  stays on the same side of the integers around it otherwise, so the conversion
  yields the integer quotient of \<open>4 * entries\<close> by \<open>3\<close> (for a result that fits 32
  bits; C leaves the conversion of a larger one undefined).
\<close>

definition uni_min_needed :: "32 word \<Rightarrow> 32 word" where
  "uni_min_needed entries = word_of_nat ((4 * unat entries) div 3)"

definition MVM_uni_hash_build :: "(32 word \<Rightarrow> 32 word) \<Rightarrow> 32 word \<Rightarrow> MVMUniHashTableControl" where
  "MVM_uni_hash_build MVM_round_up_log_base2 entries =
     (let initial_size_base2 =
            (if entries = 0 then UNI_MIN_SIZE_BASE_2
             else
               (let min_needed = uni_min_needed entries;
                    b = MVM_round_up_log_base2 min_needed
                in if b < UNI_MIN_SIZE_BASE_2 then UNI_MIN_SIZE_BASE_2 else b))
      in (uni_hash_allocate_common (ucast (8 * 4 - initial_size_base2))
            (push_bit (unat initial_size_base2) 1))\<lparr>uni_cur_items := 0\<rparr>)"

definition uni_bucket :: "MVMUniHashTableControl \<Rightarrow> 32 word \<Rightarrow> nat" where
  "uni_bucket control hash_val = unat (drop_bit (unat (uni_key_right_shift control)) hash_val)"

definition uni_same_key :: "string \<Rightarrow> 32 word \<Rightarrow> MVMUniHashEntry \<Rightarrow> bool" where
  "uni_same_key key hash_val e \<longleftrightarrow> uhe_hash_val e = hash_val \<and> uhe_key e = Some key"

definition uni_hash_insert_internal ::
  "MVMUniHashTableControl \<Rightarrow> string \<Rightarrow> 32 word
     \<Rightarrow> hash_error + (MVMUniHashTableControl \<times> nat)" where
  "uni_hash_insert_internal control key hash_val =
     (if uni_cur_items control \<ge> uni_max_items control then Inl Oops_recursive_grow
      else
        (let bucket = uni_bucket control hash_val in
         case hash_insert_internal_loop (uni_same_key key hash_val) (\<lambda>e. e\<lparr>uhe_key := None\<rparr>) 1
                (drop bucket (uni_metadata control)) (drop bucket (uni_entries control)) of
           Found k \<Rightarrow> Inr (control, bucket + k)
         | Inserted ms es k forced \<Rightarrow>
             Inr (control\<lparr>uni_max_items := (if forced then 0 else uni_max_items control),
                         uni_entries := take bucket (uni_entries control) @ es,
                         uni_metadata := take bucket (uni_metadata control) @ ms\<rparr>,
                  bucket + k)
         | Overrun \<Rightarrow> Inl Out_of_bounds))"

text \<open>
  Modelled from the spec: \<open>MVM_uni_hash_fetch\<close> is not among the sources ("Lookup.
  Identical probe.  Miss when \<open>metadata[slot] < probe_distance\<close>"; keys are compared as
  in \<open>hash_insert_internal\<close>, the cached hash first).
\<close>

definition MVM_uni_hash_fetch ::
  "(string \<Rightarrow> 32 word) \<Rightarrow> MVMUniHashTable \<Rightarrow> string \<Rightarrow> hash_error + nat option" where
  "MVM_uni_hash_fetch MVM_uni_hash_code hashtable key =
     (case hashtable of
        None \<Rightarrow> Inr None
      | Some control \<Rightarrow>
          (let hash_val = MVM_uni_hash_code key;
               bucket = uni_bucket control hash_val in
           map_sum id (map_option (\<lambda>k. bucket + k))
             (hash_fetch_loop (uni_same_key key hash_val) 1
                (drop bucket (uni_metadata control)) (drop bucket (uni_entries control)))))"

fun uni_reinsert ::
  "MVMUniHashTableControl \<Rightarrow> (8 word \<times> MVMUniHashEntry) list
     \<Rightarrow> hash_error + MVMUniHashTableControl" where
  "uni_reinsert control [] = Inr control"
| "uni_reinsert control ((m, old_entry) # rest) =
     (if m \<noteq> 0 then
        (case uhe_key old_entry of
           None \<Rightarrow> Inl Out_of_bounds
         | Some old_key \<Rightarrow>
            (case uni_hash_insert_internal control old_key (uhe_hash_val old_entry) of
               Inl err \<Rightarrow> Inl err
             | Inr (control', new_entry) \<Rightarrow>
                 uni_reinsert
                   (control'\<lparr>uni_entries := (uni_entries control')[new_entry := old_entry]\<rparr>)
                   rest))
      else uni_reinsert control rest)"

definition uni_fetch_or_insert ::
  "(string \<Rightarrow> 32 word) \<Rightarrow> MVMUniHashTableControl \<Rightarrow> string
     \<Rightarrow> hash_error + (MVMUniHashTableControl \<times> nat)" where
  "uni_fetch_or_insert MVM_uni_hash_code control key =
     (let hash_val = MVM_uni_hash_code key in
      case uni_hash_insert_internal control key hash_val of
        Inl err \<Rightarrow> Inl err
      | Inr (control', new_entry) \<Rightarrow>
          if uhe_key (uni_entries control' ! new_entry) = None
          then Inr (control'\<lparr>uni_cur_items := uni_cur_items control' + 1,
                 uni_entries := (uni_entries control')
                   [new_entry := (uni_entries control' ! new_entry)\<lparr>uhe_hash_val := hash_val\<rparr>]\<rparr>,
                 new_entry)
          else Inr (control', new_entry))"

definition MVM_uni_hash_lvalue_fetch ::
  "(32 word \<Rightarrow> 32 word) \<Rightarrow> (string \<Rightarrow> 32 word) \<Rightarrow> MVMUniHashTable \<Rightarrow> string
     \<Rightarrow> hash_error + (MVMUniHashTableControl \<times> nat)" where
  "MVM_uni_hash_lvalue_fetch MVM_round_up_log_base2 MVM_uni_hash_code hashtable key =
     (case hashtable of
        None \<Rightarrow> uni_fetch_or_insert MVM_uni_hash_code
                  (MVM_uni_hash_build MVM_round_up_log_base2 0) key
      | Some control \<Rightarrow>
          if uni_cur_items control \<ge> uni_max_items control then
            (case MVM_uni_hash_fetch MVM_uni_hash_code hashtable key of
               Inl err \<Rightarrow> Inl err
             | Inr (Some entry) \<Rightarrow> Inr (control, entry)
             | Inr None \<Rightarrow>
                 (let true_size = unat (uni_hash_true_size control);
                      old = take true_size (zip (uni_metadata control) (uni_entries control));
                      control1 = (uni_hash_allocate_common (uni_key_right_shift control - 1)
                                    (uni_official_size control * 2))
                                 \<lparr>uni_cur_items := uni_cur_items control\<rparr>
                  in case uni_reinsert control1 old of
                       Inl err \<Rightarrow> Inl err
                     | Inr control' \<Rightarrow> uni_fetch_or_insert MVM_uni_hash_code control' key))
          else uni_fetch_or_insert MVM_uni_hash_code control key)"

definition MVM_uni_hash_insert ::
  "(32 word \<Rightarrow> 32 word) \<Rightarrow> (string \<Rightarrow> 32 word) \<Rightarrow> MVMUniHashTable \<Rightarrow> string \<Rightarrow> 32 word
     \<Rightarrow> hash_error + MVMUniHashTable" where
  "MVM_uni_hash_insert MVM_round_up_log_base2 MVM_uni_hash_code hashtable key v =
     (case MVM_uni_hash_lvalue_fetch MVM_round_up_log_base2 MVM_uni_hash_code hashtable key of
        Inl err \<Rightarrow> Inl err
      | Inr (control, new_entry) \<Rightarrow>
          if uhe_key (uni_entries control ! new_entry) \<noteq> None then
            (if v \<noteq> uhe_value (uni_entries control ! new_entry) then Inl Oops_insert_conflict
             else Inr (Some control))
          else Inr (Some (control\<lparr>uni_entries := (uni_entries control)
                   [new_entry := (uni_entries control ! new_entry)
                      \<lparr>uhe_key := Some key, uhe_value := v\<rparr>]\<rparr>)))"

fun uni_insert_all ::
  "(32 word \<Rightarrow> 32 word) \<Rightarrow> (string \<Rightarrow> 32 word) \<Rightarrow> MVMUniHashTable
     \<Rightarrow> (string \<times> 32 word) list \<Rightarrow> hash_error + MVMUniHashTable" where
  "uni_insert_all rul h hashtable [] = Inr hashtable"
| "uni_insert_all rul h hashtable ((key, v) # rest) =
     (case MVM_uni_hash_insert rul h hashtable key v of
        Inl err \<Rightarrow> Inl err
      | Inr hashtable' \<Rightarrow> uni_insert_all rul h hashtable' rest)"

subsection \<open>Statement notions for the hash tables\<close>

text \<open>
  The slots allocated beyond \<open>official_size\<close>, and the pointer table after the initial
  allocation and six calls of \<open>hash_grow\<close>.
\<close>

definition ptr_overflow_slots :: "MVMPtrHashTableControl \<Rightarrow> nat" where
  "ptr_overflow_slots control =
     length (ptr_entries control) - unat (ptr_official_size control)"

definition uni_overflow_slots :: "MVMUniHashTableControl \<Rightarrow> nat" where
  "uni_overflow_slots control =
     length (uni_entries control) - unat (uni_official_size control)"

definition ex_grown_table :: MVMPtrHashTableControl where
  "ex_grown_table =
     ptr_hash_grow (ptr_hash_grow (ptr_hash_grow (ptr_hash_grow (ptr_hash_grow (ptr_hash_grow
       (ptr_hash_initial_allocate zero_control))))))"



definition ex_round_up_log_base2 :: "32 word \<Rightarrow> 32 word" where
  "ex_round_up_log_base2 v =
     (case find (\<lambda>k. unat v \<le> 2 ^ k) [0..<32] of Some k \<Rightarrow> word_of_nat k | None \<Rightarrow> 32)"

definition ex_uni_hash_code :: "string \<Rightarrow> 32 word" where
  "ex_uni_hash_code key = word_of_nat (length key) * 2654435769"

definition uni_table_of :: "(string \<times> 32 word) list \<Rightarrow> MVMUniHashTableControl" where
  "uni_table_of kvs =
     (case uni_insert_all ex_round_up_log_base2 ex_uni_hash_code None kvs of
        Inr (Some t) \<Rightarrow> t | _ \<Rightarrow> MVM_uni_hash_build ex_round_up_log_base2 0)"


definition ex_uni_pairs :: "(string \<times> 32 word) list" where
  "ex_uni_pairs = [(''a'', 1), (''bb'', 2), (''ccc'', 3), (''dddd'', 4), (''eeeee'', 5), (''ffffff'', 6)]"



text \<open>
  Tables whose entries share a bucket.  \<open>probe_bytes n\<close> are the metadata bytes of \<open>n\<close>
  entries that follow each other from their common bucket on, \<open>uni_run\<close> is the table
  of Unicode names with such entries from the first slot on and nothing else, and
  \<open>uni_entry_of\<close> is the entry that \<open>MVM_uni_hash_insert\<close> writes for a pair.
\<close>

definition probe_bytes :: "nat \<Rightarrow> 8 word list" where
  "probe_bytes n = map word_of_nat [1..<1 + n]"

definition uni_run ::
  "32 word \<Rightarrow> 32 word \<Rightarrow> 32 word \<Rightarrow> 8 word \<Rightarrow> 8 word \<Rightarrow> nat \<Rightarrow> MVMUniHashEntry list
     \<Rightarrow> MVMUniHashTableControl" where
  "uni_run cur maxi official_size krs overflow actual_items es =
     \<lparr>uni_cur_items = cur, uni_max_items = maxi, uni_official_size = official_size,
      uni_key_right_shift = krs, uni_probe_overflow_size = overflow,
      uni_entries = es @ replicate (actual_items - length es) uni_null_entry,
      uni_metadata = probe_bytes (length es)
                       @ replicate (actual_items - length es) 0 @ [1]\<rparr>"

definition uni_entry_of :: "(string \<Rightarrow> 32 word) \<Rightarrow> string \<times> 32 word \<Rightarrow> MVMUniHashEntry" where
  "uni_entry_of h kv = \<lparr>uhe_key = Some (fst kv), uhe_hash_val = h (fst kv), uhe_value = snd kv\<rparr>"

text \<open>
  \<open>ex_colliding_hash_code\<close> stands for \<open>MVM_uni_hash_code\<close> in an example where all
  hash codes collide, and \<open>ex_names n\<close> are \<open>n\<close> pairs with distinct names.
\<close>

definition ex_colliding_hash_code :: "string \<Rightarrow> 32 word" where
  "ex_colliding_hash_code key = 0"

definition ex_names :: "nat \<Rightarrow> (string \<times> 32 word) list" where
  "ex_names n = map (\<lambda>i. (replicate (Suc i) CHR ''a'', word_of_nat i)) [0..<n]"

text \<open>
  \<open>max_items_kept\<close>: before each of the inserts of a sequence, \<open>max_items\<close> is not zero,
  that is, no earlier insert of the sequence has brought a probe distance to
  \<open>MVM_HASH_MAX_PROBE_DISTANCE\<close> and set \<open>max_items = 0\<close> to force a grow.
\<close>

definition max_items_kept ::
  "(32 word \<Rightarrow> 32 word) \<Rightarrow> (string \<Rightarrow> 32 word) \<Rightarrow> MVMUniHashTableControl
     \<Rightarrow> (string \<times> 32 word) list \<Rightarrow> bool" where
  "max_items_kept rul h control kvs \<longleftrightarrow>
     list_all (\<lambda>j. case uni_insert_all rul h (Some control) (take j kvs) of
                    Inr (Some u) \<Rightarrow> uni_max_items u \<noteq> 0
                  | _ \<Rightarrow> True) [0..<length kvs]"

subsection \<open>Well-formed tables and stored keys\<close>













section \<open>Properties of the ageing\<close>

declare cleanup_loop.simps [simp del]

lemma cleanup_loop_inv:
  assumes "insert_pos \<le> i" "i \<le> length arr" "length arr = length orig"
    and "take insert_pos arr = filter (fresh_stats version max_age stats0) (take i orig)"
    and "drop i arr = drop i orig"
    and "\<And>sf. stats sf =
           (if sf \<in> set (take i orig) \<and> aged_stats version max_age stats0 sf
            then None else stats0 sf)"
    and "cleanup_loop version max_age (length orig) i insert_pos arr stats = (p, arr', stats')"
  shows "take p arr' = filter (fresh_stats version max_age stats0) orig
       \<and> (\<forall>sf. stats' sf =
            (if sf \<in> set orig \<and> aged_stats version max_age stats0 sf
             then None else stats0 sf))"
  using assms
proof (induction "length orig - i" arbitrary: i insert_pos arr stats)
  case 0
  then have i: "i = length orig" by simp
  have "cleanup_loop version max_age (length orig) i insert_pos arr stats
          = (insert_pos, arr, stats)"
    by (subst cleanup_loop.simps) (simp add: i)
  with "0.prems"(7) have eq: "p = insert_pos" "arr' = arr" "stats' = stats" by simp_all
  show ?case
    unfolding eq using "0.prems"(4) "0.prems"(6) by (simp add: i)
next
  case (Suc n)
  then have lt: "i < length orig" by simp
  have n: "n = length orig - Suc i" using Suc.hyps(2) by simp
  define sf where "sf = arr ! i"
  have "drop i arr = arr ! i # drop (Suc i) arr"
    using lt Suc.prems(3) by (simp add: Cons_nth_drop_Suc)
  moreover have "drop i orig = orig ! i # drop (Suc i) orig"
    using lt by (simp add: Cons_nth_drop_Suc)
  ultimately have sf_orig: "sf = orig ! i" and dr: "drop (Suc i) arr = drop (Suc i) orig"
    using Suc.prems(5) by (simp_all add: sf_def)
  have tk: "take (Suc i) orig = take i orig @ [sf]"
    using lt sf_orig by (simp add: take_Suc_conv_app_nth)
  have cur: "stats sf = (if sf \<in> set (take i orig) \<and> aged_stats version max_age stats0 sf
            then None else stats0 sf)"
    by (rule Suc.prems(6))
  have p1: "insert_pos \<le> Suc i" using Suc.prems(1) by simp
  have p2: "Suc i \<le> length arr" using lt Suc.prems(3) by simp
  show ?case
  proof (cases "stats sf")
    case None
    have nf: "\<not> fresh_stats version max_age stats0 sf"
      using None cur
      by (auto simp: fresh_stats_def aged_stats_def split: option.splits if_splits)
    have p4: "take insert_pos arr
                = filter (fresh_stats version max_age stats0) (take (Suc i) orig)"
      using Suc.prems(4) nf by (simp add: tk)
    have p6: "stats x =
           (if x \<in> set (take (Suc i) orig) \<and> aged_stats version max_age stats0 x
            then None else stats0 x)" for x
    proof (cases "x = sf")
      case True
      then show ?thesis using None cur by (auto simp: tk split: if_splits)
    next
      case False
      then show ?thesis using Suc.prems(6)[of x] by (simp add: tk)
    qed
    have run: "cleanup_loop version max_age (length orig) (Suc i) insert_pos arr stats
                 = (p, arr', stats')"
      using Suc.prems(7) lt None sf_def
      by (subst (asm) cleanup_loop.simps) simp
    show ?thesis
      by (rule Suc.hyps(1)[OF n p1 p2 Suc.prems(3) p4 dr p6 run])
  next
    case (Some ss)
    have same: "stats0 sf = Some ss"
      using Some cur by (auto split: if_splits)
    show ?thesis
    proof (cases "version - ss_last_update ss > max_age")
      case True
      have nf: "\<not> fresh_stats version max_age stats0 sf"
        using same True by (simp add: fresh_stats_def)
      have ag: "aged_stats version max_age stats0 sf"
        using same True by (simp add: aged_stats_def)
      have p4: "take insert_pos arr
                  = filter (fresh_stats version max_age stats0) (take (Suc i) orig)"
        using Suc.prems(4) nf by (simp add: tk)
      have p6: "(stats(sf := None)) x =
           (if x \<in> set (take (Suc i) orig) \<and> aged_stats version max_age stats0 x
            then None else stats0 x)" for x
      proof (cases "x = sf")
        case True
        then show ?thesis using ag by (simp add: tk)
      next
        case False
        then show ?thesis using Suc.prems(6)[of x] by (simp add: tk)
      qed
      have run: "cleanup_loop version max_age (length orig) (Suc i) insert_pos arr
                   (stats(sf := None)) = (p, arr', stats')"
        using Suc.prems(7) lt Some sf_def True
        by (subst (asm) cleanup_loop.simps) simp
      show ?thesis
        by (rule Suc.hyps(1)[OF n p1 p2 Suc.prems(3) p4 dr p6 run])
    next
      case False
      have fr: "fresh_stats version max_age stats0 sf"
        using same False by (simp add: fresh_stats_def)
      have nag: "\<not> aged_stats version max_age stats0 sf"
        using same False by (simp add: aged_stats_def)
      have ip: "insert_pos < length arr"
        using Suc.prems(1,3) lt by simp
      have q1: "Suc insert_pos \<le> Suc i" using Suc.prems(1) by simp
      have q2: "Suc i \<le> length (arr[insert_pos := sf])" using p2 by simp
      have q3: "length (arr[insert_pos := sf]) = length orig" using Suc.prems(3) by simp
      have q4: "take (Suc insert_pos) (arr[insert_pos := sf])
                  = filter (fresh_stats version max_age stats0) (take (Suc i) orig)"
        using Suc.prems(4) ip fr by (simp add: tk take_Suc_conv_app_nth)
      have q5: "drop (Suc i) (arr[insert_pos := sf]) = drop (Suc i) orig"
        using dr Suc.prems(1) by simp
      have p6: "stats x =
           (if x \<in> set (take (Suc i) orig) \<and> aged_stats version max_age stats0 x
            then None else stats0 x)" for x
      proof (cases "x = sf")
        case True
        then show ?thesis using nag same Some by (simp add: tk)
      next
        case False
        then show ?thesis using Suc.prems(6)[of x] by (simp add: tk)
      qed
      have run: "cleanup_loop version max_age (length orig) (Suc i) (Suc insert_pos)
                   (arr[insert_pos := sf]) stats = (p, arr', stats')"
        using Suc.prems(7) lt Some sf_def False
        by (subst (asm) cleanup_loop.simps) simp
      show ?thesis
        by (rule Suc.hyps(1)[OF n q1 q2 q3 q4 q5 p6 run])
    qed
  qed
qed

text \<open>
  Claim C8.  After the cleanup, the sink holds exactly its original frames, in their
  original order, whose statistics exist and have \<open>version - last_update \<le> MAX_AGE\<close>;
  every candidate frame whose statistics exist and are older has its statistics pointer
  set to null, and nothing else in the store changes; frames without statistics are
  dropped from the sink.
\<close>

theorem cleanup_filters_sink:
  "MVM_spesh_stats_cleanup version max_age check_frames stats =
     (filter (fresh_stats version max_age stats) check_frames,
      (\<lambda>sf. if sf \<in> set check_frames \<and> aged_stats version max_age stats sf
            then None else stats sf))"
proof -
  obtain p arr' stats' where run:
    "cleanup_loop version max_age (length check_frames) 0 0 check_frames stats
       = (p, arr', stats')"
    by (cases "cleanup_loop version max_age (length check_frames) 0 0 check_frames stats")
  have "take p arr' = filter (fresh_stats version max_age stats) check_frames
       \<and> (\<forall>sf. stats' sf =
            (if sf \<in> set check_frames \<and> aged_stats version max_age stats sf
             then None else stats sf))"
    by (rule cleanup_loop_inv[OF _ _ _ _ _ _ run]) simp_all
  then show ?thesis
    unfolding MVM_spesh_stats_cleanup_def run by auto
qed

section \<open>Properties of the stack simulation\<close>

declare sim_stack_destroy.simps [simp del]

lemma first_index_Some:
  "first_index P xs = Some i \<Longrightarrow> i < length xs \<and> P (xs ! i)"
  by (induction xs arbitrary: i) (auto split: if_splits)

lemma first_index_None: "first_index P xs = None \<longleftrightarrow> (\<forall>x\<in>set xs. \<not> P x)"
  by (induction xs) auto

lemma find_cid_append:
  "n \<le> length xs \<Longrightarrow> find_cid (xs @ ys) n cid = find_cid xs n cid"
  by (induction n) (auto simp: nth_append)


lemma find_cid_topmost:
  "simf_cid f = cid \<Longrightarrow> \<forall>g\<in>set hi. simf_cid g \<noteq> cid \<Longrightarrow>
   find_cid (lo @ f # hi) (length (lo @ f # hi)) cid = Some (length lo)"
proof (induction hi rule: rev_induct)
  case Nil
  then show ?case by (simp add: nth_append)
next
  case (snoc a as)
  have "find_cid (lo @ f # as @ [a]) (length (lo @ f # as)) cid
          = find_cid (lo @ f # as) (length (lo @ f # as)) cid"
    using find_cid_append[of "length (lo @ f # as)" "lo @ f # as" "[a]" cid] by simp
  with snoc show ?case by (simp add: nth_append)
qed

lemma sint_small: "n < 2 ^ 31 \<Longrightarrow> sint (word_of_nat n :: 32 word) = int n"
proof -
  assume "n < 2 ^ 31"
  then have "int n < 2 ^ 31" by (metis of_nat_less_iff of_nat_numeral of_nat_power)
  then have "signed_take_bit 31 (int n) = int n"
    by (intro signed_take_bit_int_eq_self) simp_all
  then show ?thesis
    using sint_sbintrunc'[where 'a=32, of "int n"] by simp
qed

lemma pop_count:
  assumes "used < 2 ^ 31" "found_at < used"
  shows "nat (sint ((word_of_nat used - word_of_nat found_at - 1) :: 32 word))
           = used - found_at - 1"
proof -
  have "(word_of_nat used - word_of_nat found_at - 1 :: 32 word)
          = word_of_nat (used - found_at - 1)"
    using assms by (simp add: of_nat_diff)
  moreover have "sint (word_of_nat (used - found_at - 1) :: 32 word) = int (used - found_at - 1)"
    using assms by (intro sint_small) simp
  ultimately show ?thesis by simp
qed


lemma log_against_caller_cases:
  "log_against_caller env f cs ats gs = gs \<or>
   (\<exists>gs' c info. gs = gs' @ [c] \<and>
      log_against_caller env f cs ats gs =
        gs' @ [c\<lparr>simf_call_type_info := simf_call_type_info c @ [info]\<rparr>])"
proof (cases gs rule: rev_cases)
  case Nil
  then show ?thesis by (simp add: log_against_caller_def)
next
  case (snoc gs' c)
  then show ?thesis
    by (auto simp: log_against_caller_def Let_def add_sim_call_type_info_def)
qed

lemma sim_stack_pop_frames_raw:
  assumes "sim_stack_pop env s = Some s'" "sims_frames s = gs @ [h]"
  shows "sims_frames s' = gs \<or> (\<exists>cs ats. sims_frames s' = log_against_caller env h cs ats gs)"
  using assms
  by (auto simp: sim_stack_pop_def Let_def split: option.splits if_splits prod.splits)
     blast+

lemma sim_stack_pop_frames:
  assumes "sim_stack_pop env s = Some s'" "sims_frames s = gs @ [h]"
  shows "sims_frames s' = gs \<or>
   (\<exists>gs' c info. gs = gs' @ [c] \<and>
      sims_frames s' = gs' @ [c\<lparr>simf_call_type_info := simf_call_type_info c @ [info]\<rparr>])"
proof -
  from sim_stack_pop_frames_raw[OF assms]
  consider "sims_frames s' = gs"
    | cs ats where "sims_frames s' = log_against_caller env h cs ats gs" by blast
  then show ?thesis
  proof cases
    case 1
    then show ?thesis by simp
  next
    case 2
    with log_against_caller_cases[of env h cs ats gs] show ?thesis by auto
  qed
qed

lemma pop_times_frames:
  "pop_times env n s = Some s' \<Longrightarrow> sims_frames s = lo @ f # hi \<Longrightarrow> length hi = n \<Longrightarrow>
   \<exists>infos. sims_frames s' = lo @ [f\<lparr>simf_call_type_info := simf_call_type_info f @ infos\<rparr>]"
proof (induction n arbitrary: s f hi)
  case 0
  then have "sims_frames s' = lo @ [f\<lparr>simf_call_type_info := simf_call_type_info f @ []\<rparr>]"
    by simp
  then show ?case by blast
next
  case (Suc n)
  from Suc.prems(3) obtain hi' h where hi: "hi = hi' @ [h]"
    by (cases hi rule: rev_cases) auto
  from Suc.prems(1) obtain s1 where pop: "sim_stack_pop env s = Some s1"
    and rest: "pop_times env n s1 = Some s'"
    by (auto split: option.splits)
  have fr: "sims_frames s = (lo @ f # hi') @ [h]" using Suc.prems(2) hi by simp
  have len: "length hi' = n" using Suc.prems(3) hi by simp
  from sim_stack_pop_frames[OF pop fr]
  consider (same) "sims_frames s1 = lo @ f # hi'"
    | (info) gs' c info where "lo @ f # hi' = gs' @ [c]"
        "sims_frames s1 = gs' @ [c\<lparr>simf_call_type_info := simf_call_type_info c @ [info]\<rparr>]"
    by blast
  then show ?case
  proof cases
    case same
    from Suc.IH[OF rest same len] show ?thesis .
  next
    case info
    show ?thesis
    proof (cases hi' rule: rev_cases)
      case Nil
      with info have eq: "gs' = lo" "c = f" by simp_all
      let ?f1 = "f\<lparr>simf_call_type_info := simf_call_type_info f @ [info]\<rparr>"
      have fr1: "sims_frames s1 = lo @ ?f1 # []" using info eq by simp
      from Suc.IH[OF rest fr1] Nil len obtain infos where
        "sims_frames s' = lo @ [?f1\<lparr>simf_call_type_info := simf_call_type_info ?f1 @ infos\<rparr>]"
        by auto
      then have "sims_frames s' =
          lo @ [f\<lparr>simf_call_type_info := simf_call_type_info f @ (info # infos)\<rparr>]"
        by simp
      then show ?thesis by blast
    next
      case (snoc hi'' c')
      with info have eq: "gs' = lo @ f # hi''" "c = c'" by simp_all
      have fr1: "sims_frames s1 = lo @ f #
          (hi'' @ [c'\<lparr>simf_call_type_info := simf_call_type_info c' @ [info]\<rparr>])"
        using info eq by simp
      have "length (hi'' @ [c'\<lparr>simf_call_type_info := simf_call_type_info c' @ [info]\<rparr>]) = n"
        using len snoc by simp
      from Suc.IH[OF rest fr1 this] show ?thesis .
    qed
  qed
qed

lemma sim_stack_find_match:
  assumes "sims_frames s = lo @ f # hi" "simf_cid f = cid"
    "\<forall>g\<in>set hi. simf_cid g \<noteq> cid" "length (sims_frames s) < 2 ^ 31"
  shows "sim_stack_find env s cid =
     (case pop_times env (length hi) s of None \<Rightarrow> None
      | Some s' \<Rightarrow> Some (Some (length lo), s'))"
proof -
  have "find_cid (sims_frames s) (length (sims_frames s)) cid = Some (length lo)"
    using find_cid_topmost[OF assms(2,3), of lo] assms(1) by simp
  moreover have "nat (sint ((word_of_nat (length (sims_frames s)) - word_of_nat (length lo) - 1)
                   :: 32 word)) = length hi"
    using pop_count[of "length (sims_frames s)" "length lo"] assms(1,4) by simp
  ultimately show ?thesis
    by (simp add: sim_stack_find_def Let_def)
qed










lemma map_update_keep:
  "g y = g (xs ! i) \<Longrightarrow> map g (xs[i := y]) = map g xs"
proof (rule nth_equalityI)
  show "length (map g (xs[i := y])) = length (map g xs)" by simp
next
  fix k assume "k < length (map g (xs[i := y]))"
  then have k: "k < length xs" by simp
  assume g: "g y = g (xs ! i)"
  show "map g (xs[i := y]) ! k = map g xs ! k"
    using k g by (cases "k = i") simp_all
qed

lemma pop_callsite_level_keeps:
  "length (ss_by_callsite (pop_callsite_level f d ss)) = length (ss_by_callsite ss)"
  "map bcs_by_type (ss_by_callsite (pop_callsite_level f d ss)) = map bcs_by_type (ss_by_callsite ss)"
  "map bcs_hits (ss_by_callsite (pop_callsite_level f d ss)) = map bcs_hits (ss_by_callsite ss)"
  "map bcs_cs (ss_by_callsite (pop_callsite_level f d ss)) = map bcs_cs (ss_by_callsite ss)"
  "ss_hits (pop_callsite_level f d ss) = ss_hits ss"
  "ss_static_values (pop_callsite_level f d ss) = ss_static_values ss"
  "ss_last_update (pop_callsite_level f d ss) = ss_last_update ss"
  by (simp_all add: pop_callsite_level_def Let_def map_update_keep)

lemma cs_without_object_args_loop_iff:
  "cs_without_object_args_loop flags \<longleftrightarrow> (\<forall>b\<in>set flags. \<not> b)"
  by (induction flags) auto

lemma incomplete_type_tuple_loop_iff:
  "incomplete_type_tuple_loop env flags ats \<longleftrightarrow>
     (\<exists>i. i < length flags \<and> i < length ats \<and> flags ! i \<and> slot_missing env (ats ! i))"
proof (induction env flags ats rule: incomplete_type_tuple_loop.induct)
  case (1 env ats)
  then show ?case by simp
next
  case (2 env is_obj flags)
  then show ?case by simp
next
  case (3 env is_obj flags a ats)
  have split: "(\<exists>i. i < Suc (length flags) \<and> i < Suc (length ats) \<and> (is_obj # flags) ! i
                  \<and> slot_missing env ((a # ats) ! i))
        \<longleftrightarrow> (is_obj \<and> slot_missing env a)
           \<or> (\<exists>i. i < length flags \<and> i < length ats \<and> flags ! i \<and> slot_missing env (ats ! i))"
    (is "?L \<longleftrightarrow> ?R")
  proof
    assume ?L
    then obtain i where i: "i < Suc (length flags)" "i < Suc (length ats)"
      "(is_obj # flags) ! i" "slot_missing env ((a # ats) ! i)" by blast
    then show ?R by (cases i) auto
  next
    assume ?R
    then show ?L
    proof
      assume "is_obj \<and> slot_missing env a"
      then show ?L by (intro exI[of _ 0]) simp
    next
      assume "\<exists>i. i < length flags \<and> i < length ats \<and> flags ! i \<and> slot_missing env (ats ! i)"
      then obtain i where "i < length flags \<and> i < length ats \<and> flags ! i
          \<and> slot_missing env (ats ! i)" by blast
      then show ?L by (intro exI[of _ "Suc i"]) simp
    qed
  qed
  show ?case
    using 3 split by (auto simp: slot_missing_def)
qed


lemma by_type_none_iff:
  "fst (by_type env css ats) = None \<longleftrightarrow>
     bcs_cs css = 0 \<or> cs_without_object_args env (bcs_cs css)
       \<or> incomplete_type_tuple env (bcs_cs css) ats"
  by (auto simp: by_type_def Let_def split: option.splits)

lemma by_type_none_same: "by_type env css ats = (None, css') \<Longrightarrow> css' = css"
  by (auto simp: by_type_def Let_def split: option.splits if_splits)


text \<open>
  Claim C3.  When the frame on top is popped and its callsite is null, or has no
  object argument, or some object-argument slot of the tuple is missing (no type, or a
  concrete container type without decont type), the pop succeeds, the frames below
  are left as they were (nothing is logged against the caller), the statistics of all
  other static frames are untouched, and in the statistics of the popped frame no
  \<open>by_type\<close> array, callsite handle or hit count changes: no \<open>MVMSpeshStatsByType\<close> is
  created or modified, so no by-offset statistics change, and the hits recorded at
  entry are retained.
\<close>

theorem pop_without_type_tuple:
  assumes frames: "sims_frames s = frames @ [simf]"
    and stats: "spesh_stats s (simf_sf simf) = Some ss"
    and idx: "simf_callsite_idx simf < length (ss_by_callsite ss)"
    and cs: "cs = bcs_cs (ss_by_callsite ss ! simf_callsite_idx simf)"
    and len: "cs \<noteq> 0 \<longrightarrow> cs_flag_count env cs \<le> length (simf_arg_types simf)"
    and none: "cs = 0 \<or> (\<forall>b\<in>set (cs_arg_is_obj env cs). \<not> b)
       \<or> (\<exists>i<cs_flag_count env cs. cs_arg_is_obj env cs ! i
             \<and> slot_missing env (simf_arg_types simf ! i))"
  shows "\<exists>s' ss'. sim_stack_pop env s = Some s'
       \<and> sims_frames s' = frames \<and> sf_updated s' = sf_updated s
       \<and> (\<forall>sf. sf \<noteq> simf_sf simf \<longrightarrow> spesh_stats s' sf = spesh_stats s sf)
       \<and> spesh_stats s' (simf_sf simf) = Some ss'
       \<and> map bcs_by_type (ss_by_callsite ss') = map bcs_by_type (ss_by_callsite ss)
       \<and> map bcs_hits (ss_by_callsite ss') = map bcs_hits (ss_by_callsite ss)
       \<and> map bcs_cs (ss_by_callsite ss') = map bcs_cs (ss_by_callsite ss)
       \<and> ss_hits ss' = ss_hits ss \<and> ss_static_values ss' = ss_static_values ss"
proof -
  let ?i = "simf_callsite_idx simf"
  let ?ss1 = "pop_callsite_level simf (sims_depth s) ss"
  let ?css = "ss_by_callsite ?ss1 ! ?i"
  have cs1: "bcs_cs ?css = cs"
  proof -
    have "bcs_cs ?css = map bcs_cs (ss_by_callsite ?ss1) ! ?i"
      using idx by (simp add: pop_callsite_level_keeps(1))
    then show ?thesis using idx cs by (simp add: pop_callsite_level_keeps(4))
  qed
  have inc: "cs = 0 \<or> cs_without_object_args env cs
       \<or> incomplete_type_tuple env cs (simf_arg_types simf)"
  proof -
    from none consider "cs = 0" | "cs \<noteq> 0" "\<forall>b\<in>set (cs_arg_is_obj env cs). \<not> b"
      | i where "cs \<noteq> 0" "i < cs_flag_count env cs" "cs_arg_is_obj env cs ! i"
          "slot_missing env (simf_arg_types simf ! i)"
      by blast
    then show ?thesis
    proof cases
      case 1
      then show ?thesis by simp
    next
      case 2
      then have "cs_without_object_args env cs"
        unfolding cs_without_object_args_def cs_without_object_args_loop_iff by blast
      then show ?thesis by blast
    next
      case 3
      then have "i < length (simf_arg_types simf)" using len by simp
      with 3 show ?thesis
        unfolding incomplete_type_tuple_def incomplete_type_tuple_loop_iff cs_flag_count_def
        by blast
    qed
  qed
  then have "fst (by_type env ?css (simf_arg_types simf)) = None"
    by (simp add: by_type_none_iff cs1)
  then obtain css' where bt: "by_type env ?css (simf_arg_types simf) = (None, css')"
    by (cases "by_type env ?css (simf_arg_types simf)") simp
  then have css': "css' = ?css" by (rule by_type_none_same)
  have same: "(ss_by_callsite ?ss1)[?i := ?css] = ss_by_callsite ?ss1" by simp
  define s' where "s' = s\<lparr>sims_frames := frames, sims_depth := sims_depth s - 1,
      spesh_stats := (spesh_stats s)(simf_sf simf \<mapsto> ?ss1)\<rparr>"
  have pop: "sim_stack_pop env s = Some s'"
    using frames stats idx cs len bt css' same
    by (auto simp: sim_stack_pop_def Let_def s'_def)
  show ?thesis
    using pop by (intro exI[of _ s'] exI[of _ ?ss1])
                 (simp add: s'_def pop_callsite_level_keeps)
qed


theorem pop_without_type_tuple_witness:
  "sims_frames (ex_state [zero_type] 5) = [ex_frame 1 1 [zero_type]] @ [ex_frame 2 2 [zero_type]]
   \<and> cs_arg_is_obj ex_env 5 ! 0 \<and> slot_missing ex_env (simf_arg_types (ex_frame 2 2 [zero_type]) ! 0)
   \<and> (\<exists>s' ss'. sim_stack_pop ex_env (ex_state [zero_type] 5) = Some s'
       \<and> sims_frames s' = [ex_frame 1 1 [zero_type]]
       \<and> sf_updated s' = sf_updated (ex_state [zero_type] 5)
       \<and> (\<forall>sf. sf \<noteq> 2 \<longrightarrow> spesh_stats s' sf = spesh_stats (ex_state [zero_type] 5) sf)
       \<and> spesh_stats s' 2 = Some ss'
       \<and> map bcs_by_type (ss_by_callsite ss') = [[]]
       \<and> map bcs_hits (ss_by_callsite ss') = [0]
       \<and> map bcs_cs (ss_by_callsite ss') = [5]
       \<and> ss_hits ss' = 0 \<and> ss_static_values ss' = [])"
proof -
  let ?s = "ex_state [zero_type] 5" and ?f = "ex_frame 2 2 [zero_type]"
  have frames: "sims_frames ?s = [ex_frame 1 1 [zero_type]] @ [?f]"
    by (simp add: ex_state_def)
  have stats: "spesh_stats ?s (simf_sf ?f) = Some (ex_stats 5 3)"
    by (simp add: ex_state_def ex_frame_def)
  have idx: "simf_callsite_idx ?f < length (ss_by_callsite (ex_stats 5 3))"
    by (simp add: ex_frame_def ex_stats_def)
  have cs: "5 = bcs_cs (ss_by_callsite (ex_stats 5 3) ! simf_callsite_idx ?f)"
    by (simp add: ex_frame_def ex_stats_def zero_by_callsite_def)
  have len: "(5::nat) \<noteq> 0 \<longrightarrow> cs_flag_count ex_env 5 \<le> length (simf_arg_types ?f)"
    by (simp add: ex_frame_def ex_env_def cs_flag_count_def)
  have obj: "cs_arg_is_obj ex_env 5 ! 0" by (simp add: ex_env_def)
  have miss: "slot_missing ex_env (simf_arg_types ?f ! 0)"
    by (simp add: slot_missing_def ex_frame_def zero_type_def)
  have none: "(5::nat) = 0 \<or> (\<forall>b\<in>set (cs_arg_is_obj ex_env 5). \<not> b)
       \<or> (\<exists>i<cs_flag_count ex_env 5. cs_arg_is_obj ex_env 5 ! i
             \<and> slot_missing ex_env (simf_arg_types ?f ! i))"
    using obj miss by (auto simp: cs_flag_count_def ex_env_def)
  from pop_without_type_tuple[OF frames stats idx cs len none]
  have "\<exists>s' ss'. sim_stack_pop ex_env ?s = Some s'
       \<and> sims_frames s' = [ex_frame 1 1 [zero_type]]
       \<and> sf_updated s' = sf_updated ?s
       \<and> (\<forall>sf. sf \<noteq> 2 \<longrightarrow> spesh_stats s' sf = spesh_stats ?s sf)
       \<and> spesh_stats s' 2 = Some ss'
       \<and> map bcs_by_type (ss_by_callsite ss') = [[]]
       \<and> map bcs_hits (ss_by_callsite ss') = [0]
       \<and> map bcs_cs (ss_by_callsite ss') = [5]
       \<and> ss_hits ss' = 0 \<and> ss_static_values ss' = []"
    by (simp add: ex_frame_def ex_stats_def zero_by_callsite_def)
  with frames obj miss show ?thesis by blast
qed


section \<open>Properties of \<open>MVM_spesh_stats_update\<close>\<close>


lemma marks_kept_refl: "marks_kept s s"
  by (simp add: marks_kept_def)

lemma marks_kept_trans: "marks_kept s t \<Longrightarrow> marks_kept t u \<Longrightarrow> marks_kept s u"
  by (simp add: marks_kept_def)

lemma marks_kept_forth:
  assumes "marks_kept s s'" "spesh_stats s sf = Some ss"
  shows "\<exists>ss'. spesh_stats s' sf = Some ss' \<and> ss_last_update ss' = ss_last_update ss"
proof -
  from assms have "map_option ss_last_update (spesh_stats s' sf) = Some (ss_last_update ss)"
    by (simp add: marks_kept_def)
  then show ?thesis by (cases "spesh_stats s' sf") auto
qed

lemma marks_kept_back:
  assumes "marks_kept s s'" "spesh_stats s' sf = Some ss'"
  shows "\<exists>ss. spesh_stats s sf = Some ss \<and> ss_last_update ss = ss_last_update ss'"
proof -
  from assms(1) have "map_option ss_last_update (spesh_stats s' sf)
      = map_option ss_last_update (spesh_stats s sf)"
    by (simp add: marks_kept_def)
  with assms(2) have "map_option ss_last_update (spesh_stats s sf) = Some (ss_last_update ss')"
    by simp
  then show ?thesis by (cases "spesh_stats s sf") auto
qed

lemma stamps_bounded_marks:
  assumes "stamps_bounded env s" "marks_kept s s'"
  shows "stamps_bounded env s'"
  unfolding stamps_bounded_def
proof (intro allI impI)
  fix sf ss' assume "spesh_stats s' sf = Some ss'"
  from marks_kept_back[OF assms(2) this] obtain ss where
    "spesh_stats s sf = Some ss" "ss_last_update ss = ss_last_update ss'" by blast
  with assms(1) show "ss_last_update ss' \<le> spesh_stats_version env"
    unfolding stamps_bounded_def by metis
qed

lemma sim_stack_pop_marks:
  assumes "sim_stack_pop env s = Some s'"
  shows "marks_kept s s'"
  using assms
  by (auto simp: sim_stack_pop_def Let_def marks_kept_def pop_callsite_level_keeps
           split: option.splits if_splits prod.splits)

lemma pop_times_marks: "pop_times env n s = Some s' \<Longrightarrow> marks_kept s s'"
proof (induction n arbitrary: s)
  case 0
  then show ?case by (simp add: marks_kept_refl)
next
  case (Suc n)
  then obtain s1 where "sim_stack_pop env s = Some s1" "pop_times env n s1 = Some s'"
    by (auto split: option.splits)
  then show ?case
    using Suc.IH sim_stack_pop_marks marks_kept_trans by blast
qed

lemma sim_stack_find_marks:
  "sim_stack_find env s cid = Some (r, s') \<Longrightarrow> marks_kept s s'"
  by (auto simp: sim_stack_find_def Let_def marks_kept_refl
           split: option.splits dest: pop_times_marks)

lemma set_frame_marks: "marks_kept s (set_frame s k f)"
  by (simp add: marks_kept_def set_frame_def)

lemma attribute_return_marks: "marks_kept s (attribute_return env sf i type flags s)"
  by (simp add: marks_kept_def attribute_return_def Let_def)

lemma add_static_value_last_update:
  "ss_last_update (add_static_value ss off v) = ss_last_update ss"
  by (simp add: add_static_value_def split: option.splits)

lemma apply_to_frame_marks:
  "apply_to_frame env s k e = Some s' \<Longrightarrow> marks_kept s s'"
proof (cases e)
  case (MVM_SPESH_LOG_RETURN i off type flags)
  assume "apply_to_frame env s k e = Some s'"
  with MVM_SPESH_LOG_RETURN obtain s1 where "sim_stack_pop env s = Some s1"
    "s' = attribute_return env (simf_sf (sims_frames s ! k)) i type flags s1"
    by (auto simp: apply_return_def Let_def split: option.splits)
  then show ?thesis
    using sim_stack_pop_marks attribute_return_marks marks_kept_trans by blast
qed (auto simp: apply_parameter_def apply_offset_log_def apply_osr_def apply_static_def
          Let_def set_frame_marks marks_kept_refl marks_kept_def set_frame_def
          add_static_value_last_update
        split: option.splits)

lemma sim_stack_destroy_marks:
  "sim_stack_destroy env s = Some s' \<Longrightarrow> marks_kept s s'"
proof (induction env s rule: sim_stack_destroy.induct)
  case (1 env s)
  show ?case
  proof (cases "sims_frames s = []")
    case True
    with "1.prems" show ?thesis by (simp add: marks_kept_refl sim_stack_destroy.simps)
  next
    case False
    with "1.prems" obtain s1 where pop: "sim_stack_pop env s = Some s1"
      and rest: "sim_stack_destroy env s1 = Some s'"
      by (subst (asm) sim_stack_destroy.simps) (auto split: option.splits)
    from "1.IH"[OF False pop rest] sim_stack_pop_marks[OF pop]
    show ?thesis using marks_kept_trans by blast
  qed
qed

lemma by_callsite_idx_facts:
  assumes "by_callsite_idx ss cs = (k, ss')"
  shows "k < length (ss_by_callsite ss')" "ss_last_update ss' = ss_last_update ss"
  using assms
  by (auto simp: by_callsite_idx_def split: option.splits dest: first_index_Some)

lemma update_entry_effect:
  "\<exists>s' ss'. update_entry env s i sf cs = Some s'
     \<and> sf_updated s' =
         (if ss_last_update (stats_for (spesh_stats s) sf) \<noteq> spesh_stats_version env
          then sf_updated s @ [sf] else sf_updated s)
     \<and> spesh_stats s' sf = Some ss' \<and> ss_last_update ss' = spesh_stats_version env
     \<and> (\<forall>x. x \<noteq> sf \<longrightarrow> spesh_stats s' x = spesh_stats s x)"
proof -
  let ?ss = "stats_for (spesh_stats s) sf"
  let ?changed = "ss_last_update ?ss \<noteq> spesh_stats_version env"
  let ?ss1 = "if ?changed then ?ss\<lparr>ss_last_update := spesh_stats_version env\<rparr> else ?ss"
  let ?ss2 = "?ss1\<lparr>ss_hits := ss_hits ?ss1 + 1\<rparr>"
  obtain k ss3 where bc: "by_callsite_idx ?ss2 cs = (k, ss3)"
    by (cases "by_callsite_idx ?ss2 cs")
  have k: "k < length (ss_by_callsite ss3)"
    and lu: "ss_last_update ss3 = spesh_stats_version env"
    using by_callsite_idx_facts[OF bc] by auto
  show ?thesis
    using bc k lu
    by (simp add: update_entry_def Let_def sim_stack_push_def)
qed


lemma pushed_once_marks:
  assumes "pushed_once env sink0 s" "marks_kept s s'"
  shows "pushed_once env sink0 s'"
proof -
  from assms(1) obtain pushed where p: "sf_updated s = sink0 @ pushed" "distinct pushed"
    "\<forall>x\<in>set pushed. \<exists>ss. spesh_stats s x = Some ss
             \<and> ss_last_update ss = spesh_stats_version env"
    unfolding pushed_once_def by blast
  have "\<exists>ss. spesh_stats s' x = Some ss \<and> ss_last_update ss = spesh_stats_version env"
    if "x \<in> set pushed" for x
  proof -
    from p(3) that obtain ss where ss: "spesh_stats s x = Some ss"
      "ss_last_update ss = spesh_stats_version env" by blast
    from marks_kept_forth[OF assms(2) ss(1)] obtain ss' where "spesh_stats s' x = Some ss'"
      "ss_last_update ss' = ss_last_update ss"
      by blast
    with ss(2) show ?thesis by simp
  qed
  moreover have "sf_updated s' = sink0 @ pushed"
    using assms(2) p(1) by (simp add: marks_kept_def)
  ultimately show ?thesis using p(2) unfolding pushed_once_def by blast
qed

lemma update_event_non_entry:
  "\<not> is_entry e \<Longrightarrow> update_event env s e =
     (case sim_stack_find env s (entry_id e) of
        None \<Rightarrow> None
      | Some (None, s') \<Rightarrow> Some s'
      | Some (Some found_at, s') \<Rightarrow> apply_to_frame env s' found_at e)"
  by (cases e; hypsubst_thin; simp)

lemma update_event_marks:
  assumes "\<not> is_entry e" "update_event env s e = Some s'"
  shows "marks_kept s s'"
proof -
  from assms obtain r s1 where f: "sim_stack_find env s (entry_id e) = Some (r, s1)"
    by (cases "sim_stack_find env s (entry_id e)") (auto simp: update_event_non_entry)
  show ?thesis
  proof (cases r)
    case None
    with assms f have "s' = s1" by (simp add: update_event_non_entry)
    with sim_stack_find_marks[OF f] show ?thesis by simp
  next
    case (Some k)
    with assms f have "apply_to_frame env s1 k e = Some s'"
      by (simp add: update_event_non_entry)
    from apply_to_frame_marks[OF this] sim_stack_find_marks[OF f]
    show ?thesis using marks_kept_trans by blast
  qed
qed

lemma update_entry_pushed_once:
  assumes inv: "pushed_once env sink0 s" and upd: "update_entry env s i sf cs = Some s'"
  shows "pushed_once env sink0 s'"
proof -
  from update_entry_effect[of env s i sf cs] upd obtain ss' where
    sink: "sf_updated s' =
         (if ss_last_update (stats_for (spesh_stats s) sf) \<noteq> spesh_stats_version env
          then sf_updated s @ [sf] else sf_updated s)"
    and st: "spesh_stats s' sf = Some ss'" "ss_last_update ss' = spesh_stats_version env"
    and other: "\<forall>x. x \<noteq> sf \<longrightarrow> spesh_stats s' x = spesh_stats s x"
    by auto
  from inv obtain pushed where p: "sf_updated s = sink0 @ pushed" "distinct pushed"
    "\<forall>x\<in>set pushed. \<exists>ss. spesh_stats s x = Some ss
             \<and> ss_last_update ss = spesh_stats_version env"
    unfolding pushed_once_def by blast
  have keep: "\<forall>x\<in>set pushed. \<exists>ss. spesh_stats s' x = Some ss
             \<and> ss_last_update ss = spesh_stats_version env"
  proof
    fix x assume "x \<in> set pushed"
    with p(3) obtain ss where "spesh_stats s x = Some ss"
      "ss_last_update ss = spesh_stats_version env" by blast
    then show "\<exists>ss. spesh_stats s' x = Some ss
             \<and> ss_last_update ss = spesh_stats_version env"
      using st other by (cases "x = sf") auto
  qed
  show ?thesis
  proof (cases "ss_last_update (stats_for (spesh_stats s) sf) \<noteq> spesh_stats_version env")
    case True
    have "sf \<notin> set pushed"
    proof
      assume "sf \<in> set pushed"
      with p(3) obtain ss where "spesh_stats s sf = Some ss"
        "ss_last_update ss = spesh_stats_version env" by blast
      with True show False by (simp add: stats_for_def)
    qed
    with p(2) have "distinct (pushed @ [sf])" by simp
    moreover have "sf_updated s' = sink0 @ (pushed @ [sf])" using sink True p(1) by simp
    moreover have "\<forall>x\<in>set (pushed @ [sf]). \<exists>ss. spesh_stats s' x = Some ss
             \<and> ss_last_update ss = spesh_stats_version env"
      using keep st by auto
    ultimately show ?thesis unfolding pushed_once_def by blast
  next
    case False
    then have "sf_updated s' = sink0 @ pushed" using sink p(1) by simp
    with p(2) keep show ?thesis unfolding pushed_once_def by blast
  qed
qed

lemma update_loop_pushed_once:
  "pushed_once env sink0 s \<Longrightarrow> update_loop env s es = Some s' \<Longrightarrow> pushed_once env sink0 s'"
proof (induction es arbitrary: s)
  case Nil
  then show ?case by simp
next
  case (Cons e es)
  from Cons.prems(2) obtain s1 where e: "update_event env s e = Some s1"
    and rest: "update_loop env s1 es = Some s'"
    by (auto split: option.splits)
  have "pushed_once env sink0 s1"
  proof (cases "is_entry e")
    case True
    then obtain i sf cs where "e = MVM_SPESH_LOG_ENTRY i sf cs" by (cases e) auto
    with e Cons.prems(1) show ?thesis by (auto dest: update_entry_pushed_once)
  next
    case False
    from update_event_marks[OF False e] Cons.prems(1) show ?thesis
      by (rule pushed_once_marks[rotated])
  qed
  from Cons.IH[OF this rest] show ?case .
qed


lemma stats_for_bounded:
  "stamps_bounded env s \<Longrightarrow>
     ss_last_update (stats_for (spesh_stats s) sf) \<le> spesh_stats_version env"
  by (auto simp: stamps_bounded_def stats_for_def zero_stats_def split: option.splits)

lemma update_entry_bounded:
  assumes "stamps_bounded env s" "update_entry env s i sf cs = Some s'"
  shows "stamps_bounded env s'"
proof -
  from update_entry_effect[of env s i sf cs] assms(2) obtain ss' where
    st: "spesh_stats s' sf = Some ss'" "ss_last_update ss' = spesh_stats_version env"
    and other: "\<forall>x. x \<noteq> sf \<longrightarrow> spesh_stats s' x = spesh_stats s x"
    by auto
  show ?thesis
    unfolding stamps_bounded_def
  proof (intro allI impI)
    fix x ss assume x: "spesh_stats s' x = Some ss"
    show "ss_last_update ss \<le> spesh_stats_version env"
    proof (cases "x = sf")
      case True
      with x st show ?thesis by simp
    next
      case False
      with x other have "spesh_stats s x = Some ss" by simp
      with assms(1) show ?thesis unfolding stamps_bounded_def by blast
    qed
  qed
qed

lemma update_event_bounded:
  assumes "stamps_bounded env s" "update_event env s e = Some s'"
  shows "stamps_bounded env s'"
proof (cases "is_entry e")
  case True
  then obtain i sf cs where "e = MVM_SPESH_LOG_ENTRY i sf cs" by (cases e) auto
  with assms show ?thesis by (auto dest: update_entry_bounded)
next
  case False
  from update_event_marks[OF False assms(2)] assms(1) show ?thesis
    by (rule stamps_bounded_marks[rotated])
qed

lemma update_loop_bounded:
  "stamps_bounded env s \<Longrightarrow> update_loop env s es = Some s' \<Longrightarrow> stamps_bounded env s'"
proof (induction es arbitrary: s)
  case Nil
  then show ?case by simp
next
  case (Cons e es)
  from Cons.prems(2) obtain s1 where e: "update_event env s e = Some s1"
    and rest: "update_loop env s1 es = Some s'"
    by (auto split: option.splits)
  from Cons.IH[OF update_event_bounded[OF Cons.prems(1) e] rest] show ?case .
qed

lemma update_entry_effect_bounded:
  assumes "stamps_bounded env s"
  shows "\<exists>s'. update_entry env s i sf cs = Some s'
     \<and> sf_updated s' =
         (if ss_last_update (stats_for (spesh_stats s) sf) < spesh_stats_version env
          then sf_updated s @ [sf] else sf_updated s)
     \<and> (\<exists>ss'. spesh_stats s' sf = Some ss'
            \<and> ss_last_update ss' = spesh_stats_version env)"
proof -
  from stats_for_bounded[OF assms, of sf]
  have "(ss_last_update (stats_for (spesh_stats s) sf) \<noteq> spesh_stats_version env)
      = (ss_last_update (stats_for (spesh_stats s) sf) < spesh_stats_version env)"
    by auto
  with update_entry_effect[of env s i sf cs] show ?thesis by auto
qed


text \<open>
  Claim C2.  Let no statistics record of the store given to
  \<open>MVM_spesh_stats_update\<close> be stamped with more than the global version (they are
  born with \<open>last_update = 0\<close> and only ever assigned the version; the loop keeps
  this).  Then, wherever in the log an \<open>MVM_SPESH_LOG_ENTRY\<close> for static frame \<open>sf\<close>
  is reached, processing it succeeds, leaves the statistics of \<open>sf\<close> stamped with
  the version, and pushes \<open>sf\<close> onto \<open>sf_updated\<close> if and only if \<open>last_update\<close> was
  below the version; consequently the frames that the call appends to \<open>sf_updated\<close>
  are pairwise different.
\<close>

theorem update_pushes_each_frame_once:
  assumes "\<forall>sf ss. stats sf = Some ss \<longrightarrow> ss_last_update ss \<le> spesh_stats_version env"
  shows "(\<forall>n s i sf cs. n < length sl
            \<and> update_loop env (sim_stack_init stats sink) (take n sl) = Some s
            \<and> sl ! n = MVM_SPESH_LOG_ENTRY i sf cs \<longrightarrow>
          (\<exists>s'. update_event env s (sl ! n) = Some s'
             \<and> sf_updated s' =
                 (if ss_last_update (stats_for (spesh_stats s) sf) < spesh_stats_version env
                  then sf_updated s @ [sf] else sf_updated s)
             \<and> (\<exists>ss'. spesh_stats s' sf = Some ss'
                    \<and> ss_last_update ss' = spesh_stats_version env)))
   \<and> (\<forall>stats' sink'. MVM_spesh_stats_update env sl stats sink = Some (stats', sink') \<longrightarrow>
        (\<exists>pushed. sink' = sink @ pushed \<and> distinct pushed))"
proof (intro conjI allI impI)
  fix n s i sf cs
  assume a: "n < length sl
            \<and> update_loop env (sim_stack_init stats sink) (take n sl) = Some s
            \<and> sl ! n = MVM_SPESH_LOG_ENTRY i sf cs"
  from assms have "stamps_bounded env (sim_stack_init stats sink)"
    by (simp add: stamps_bounded_def sim_stack_init_def)
  with a have "stamps_bounded env s" by (auto dest: update_loop_bounded)
  from update_entry_effect_bounded[OF this, of i sf cs] a
  show "\<exists>s'. update_event env s (sl ! n) = Some s'
             \<and> sf_updated s' =
                 (if ss_last_update (stats_for (spesh_stats s) sf) < spesh_stats_version env
                  then sf_updated s @ [sf] else sf_updated s)
             \<and> (\<exists>ss'. spesh_stats s' sf = Some ss'
                    \<and> ss_last_update ss' = spesh_stats_version env)"
    by simp
next
  fix stats' sink'
  assume run: "MVM_spesh_stats_update env sl stats sink = Some (stats', sink')"
  then obtain s1 s2 where loop: "update_loop env (sim_stack_init stats sink) sl = Some s1"
    and destroy: "sim_stack_destroy env s1 = Some s2"
    and res: "stats' = spesh_stats s2" "sink' = sf_updated s2"
    by (auto simp: MVM_spesh_stats_update_def split: option.splits)
  have "pushed_once env sink (sim_stack_init stats sink)"
    by (simp add: pushed_once_def sim_stack_init_def)
  from update_loop_pushed_once[OF this loop] have "pushed_once env sink s1" .
  from pushed_once_marks[OF this sim_stack_destroy_marks[OF destroy]]
  have "pushed_once env sink s2" .
  then show "\<exists>pushed. sink' = sink @ pushed \<and> distinct pushed"
    using res unfolding pushed_once_def by blast
qed


theorem update_pushes_each_frame_once_witness:
  "map_option ss_last_update (ex_old_store 1) = Some 2 \<and> spesh_stats_version ex_env = 3
   \<and> ex_log ! 0 = MVM_SPESH_LOG_ENTRY 1 1 5
   \<and> ss_last_update (stats_for ex_old_store 1) < spesh_stats_version ex_env
   \<and> map_option sf_updated
        (update_event ex_env (sim_stack_init ex_old_store [7]) (ex_log ! 0)) = Some [7, 1]
   \<and> map_option snd (MVM_spesh_stats_update ex_env ex_log ex_old_store [7]) = Some [7, 1, 2]"
proof -
  have h: "\<forall>sf ss. ex_old_store sf = Some ss \<longrightarrow> ss_last_update ss \<le> spesh_stats_version ex_env"
    by (simp add: ex_old_store_def ex_stats_def ex_env_def)
  have e0: "ex_log ! 0 = MVM_SPESH_LOG_ENTRY 1 1 5" by (simp add: ex_log_def)
  have n0: "0 < length ex_log" by (simp add: ex_log_def)
  have lt: "ss_last_update (stats_for ex_old_store 1) < spesh_stats_version ex_env"
    by (simp add: ex_old_store_def stats_for_def ex_stats_def ex_env_def)
  have init: "update_loop ex_env (sim_stack_init ex_old_store [7]) (take 0 ex_log)
                = Some (sim_stack_init ex_old_store [7])" by simp
  from update_pushes_each_frame_once[OF h, of ex_log "[7]"] n0 init e0
  obtain s' where "update_event ex_env (sim_stack_init ex_old_store [7]) (ex_log ! 0) = Some s'"
    "sf_updated s' =
       (if ss_last_update (stats_for (spesh_stats (sim_stack_init ex_old_store [7])) 1)
             < spesh_stats_version ex_env
        then sf_updated (sim_stack_init ex_old_store [7]) @ [1]
        else sf_updated (sim_stack_init ex_old_store [7]))"
    by blast
  with lt have first: "map_option sf_updated
        (update_event ex_env (sim_stack_init ex_old_store [7]) (ex_log ! 0)) = Some [7, 1]"
    by (simp add: sim_stack_init_def)
  have run: "map_option snd (MVM_spesh_stats_update ex_env ex_log ex_old_store [7])
               = Some [7, 1, 2]"
    by code_simp
  have st: "map_option ss_last_update (ex_old_store 1) = Some 2"
    "spesh_stats_version ex_env = 3"
    by (simp_all add: ex_old_store_def ex_stats_def ex_env_def)
  from st e0 lt first run show ?thesis by blast
qed


section \<open>Return attribution\<close>

lemma add_type_at_offset_seen: "type_seen (add_type_at_offset oss type c) type c"
proof (cases "first_index (\<lambda>t. tc_type t = type \<and> tc_type_concrete t = c) (bo_types oss)")
  case None
  then show ?thesis by (simp add: add_type_at_offset_def type_seen_def)
next
  case (Some k)
  from first_index_Some[OF Some] have k: "k < length (bo_types oss)"
    "tc_type (bo_types oss ! k) = type" "tc_type_concrete (bo_types oss ! k) = c" by auto
  let ?ts = "(bo_types oss)[k := (bo_types oss ! k)\<lparr>tc_count := tc_count (bo_types oss ! k) + 1\<rparr>]"
  have "?ts ! k \<in> set ?ts" using k(1) by (intro nth_mem) simp
  moreover have "tc_type (?ts ! k) = type \<and> tc_type_concrete (?ts ! k) = c"
    using k by simp
  ultimately show ?thesis
    using Some unfolding add_type_at_offset_def type_seen_def list_ex_iff
    by (auto simp del: nth_list_update_eq)
qed

lemma list_ex_update_keep:
  assumes "list_ex P xs" "P (xs ! k) \<Longrightarrow> P y"
  shows "list_ex P (xs[k := y])"
proof -
  from assms(1) obtain j where j: "j < length xs" "P (xs ! j)"
    by (auto simp: list_ex_iff in_set_conv_nth)
  have "P (xs[k := y] ! j)"
    using j assms(2) by (cases "j = k") simp_all
  moreover have "xs[k := y] ! j \<in> set (xs[k := y])" using j(1) by (intro nth_mem) simp
  ultimately show ?thesis unfolding list_ex_iff by blast
qed

lemma add_type_at_offset_keeps:
  "type_seen oss t c \<Longrightarrow> type_seen (add_type_at_offset oss type' c') t c"
  unfolding type_seen_def add_type_at_offset_def
  by (cases "first_index (\<lambda>t. tc_type t = type' \<and> tc_type_concrete t = c') (bo_types oss)")
     (auto intro: list_ex_update_keep)

lemma add_at_offset_offset:
  "bo_bytecode_offset (add_type_at_offset oss t c) = bo_bytecode_offset oss"
  "bo_bytecode_offset (add_value_at_offset oss v) = bo_bytecode_offset oss"
  "bo_bytecode_offset (add_type_tuple_at_offset env oss info) = bo_bytecode_offset oss"
  by (simp_all add: add_type_at_offset_def add_value_at_offset_def
        add_type_tuple_at_offset_def Let_def split: option.splits)

lemma add_other_keeps:
  "type_seen (add_value_at_offset oss v) t c = type_seen oss t c"
  "type_seen (add_type_tuple_at_offset env oss info) t c = type_seen oss t c"
  by (simp_all add: add_value_at_offset_def type_seen_def
        add_type_tuple_at_offset_def Let_def split: option.splits)

lemma by_offset_facts:
  assumes "by_offset tss off = (k, tss')"
  shows "k < length (bt_by_offset tss')"
    and "bo_bytecode_offset (bt_by_offset tss' ! k) = off"
    and "bt_arg_types tss' = bt_arg_types tss"
    and "type_seen_at tss o' t c \<Longrightarrow> type_seen_at tss' o' t c"
  using assms
  by (auto simp: by_offset_def type_seen_at_def zero_by_offset_def nth_append
           split: option.splits dest: first_index_Some)


lemma update_at_offset_keeps:
  assumes bo:"by_offset tss off = (k, tss')"
    and g: "\<And>oss. bo_bytecode_offset (g oss) = bo_bytecode_offset oss"
           "\<And>oss. type_seen oss t c \<Longrightarrow> type_seen (g oss) t c"
    and seen: "type_seen_at tss o' t c"
  shows "type_seen_at (tss'\<lparr>bt_by_offset := (bt_by_offset tss')
           [k := g (bt_by_offset tss' ! k)]\<rparr>) o' t c"
proof -
  from by_offset_facts(4)[OF bo seen] have "type_seen_at tss' o' t c" .
  then show ?thesis
    unfolding type_seen_at_def using g by (auto intro: list_ex_update_keep)
qed

lemma update_at_offset_adds:
  assumes bo:"by_offset tss off = (k, tss')"
    and g: "bo_bytecode_offset (g (bt_by_offset tss' ! k)) = bo_bytecode_offset (bt_by_offset tss' ! k)"
           "type_seen (g (bt_by_offset tss' ! k)) t c"
  shows "type_seen_at (tss'\<lparr>bt_by_offset := (bt_by_offset tss')
           [k := g (bt_by_offset tss' ! k)]\<rparr>) off t c"
proof -
  let ?xs = "(bt_by_offset tss')[k := g (bt_by_offset tss' ! k)]"
  have k: "k < length (bt_by_offset tss')" and off: "bo_bytecode_offset (bt_by_offset tss' ! k) = off"
    using by_offset_facts(1,2)[OF bo] by auto
  have "?xs ! k \<in> set ?xs" using k by (intro nth_mem) simp
  moreover have "bo_bytecode_offset (?xs ! k) = off \<and> type_seen (?xs ! k) t c"
    using k off g by simp
  ultimately show ?thesis
    unfolding type_seen_at_def list_ex_iff by (auto simp del: nth_list_update_eq)
qed

lemma incorporate_offset_log_keeps:
  "type_seen_at tss o' t c \<Longrightarrow> type_seen_at (incorporate_offset_log tss e) o' t c"
proof (cases e)
  case (MVM_SPESH_LOG_TYPE i off ty fl)
  assume seen: "type_seen_at tss o' t c"
  obtain k tss' where bo:"by_offset tss off = (k, tss')" by (cases "by_offset tss off")
  from update_at_offset_keeps[OF bo _ _ seen, of "\<lambda>oss. add_type_at_offset oss ty (concrete_flag fl)"]
  show ?thesis using MVM_SPESH_LOG_TYPE bo
    by(simp add: add_at_offset_offset add_type_at_offset_keeps)
next
  case (MVM_SPESH_LOG_RETURN i off ty fl)
  assume seen: "type_seen_at tss o' t c"
  obtain k tss' where bo:"by_offset tss off = (k, tss')" by (cases "by_offset tss off")
  from update_at_offset_keeps[OF bo _ _ seen, of "\<lambda>oss. add_type_at_offset oss ty (concrete_flag fl)"]
  show ?thesis using MVM_SPESH_LOG_RETURN bo
    by(simp add: add_at_offset_offset add_type_at_offset_keeps)
next
  case (MVM_SPESH_LOG_INVOKE i off v)
  assume seen: "type_seen_at tss o' t c"
  obtain k tss' where bo:"by_offset tss off = (k, tss')" by (cases "by_offset tss off")
  from update_at_offset_keeps[OF bo _ _ seen, of "\<lambda>oss. add_value_at_offset oss v"]
  show ?thesis using MVM_SPESH_LOG_INVOKE bo
    by(simp add: add_at_offset_offset add_other_keeps)
qed simp_all

lemma incorporate_offset_log_adds:
  assumes "is_type_log e off t fl"
  shows "type_seen_at (incorporate_offset_log tss e) off t (concrete_flag fl)"
proof -
  obtain k tss' where bo:"by_offset tss off = (k, tss')" by (cases "by_offset tss off")
  from update_at_offset_adds[OF bo, of "\<lambda>oss. add_type_at_offset oss t (concrete_flag fl)"]
  have "type_seen_at (tss'\<lparr>bt_by_offset := (bt_by_offset tss')
           [k := add_type_at_offset (bt_by_offset tss' ! k) t (concrete_flag fl)]\<rparr>)
          off t (concrete_flag fl)"
    by (simp add: add_at_offset_offset add_type_at_offset_seen)
  then show ?thesis using assms bo by (cases e) simp_all
qed

lemma incorporate_offset_log_arg_types:
  "bt_arg_types (incorporate_offset_log tss e) = bt_arg_types tss"
proof (cases e)
  case (MVM_SPESH_LOG_TYPE i off ty fl)
  then show ?thesis
    using by_offset_facts(3)[of tss off] by (cases "by_offset tss off") simp
next
  case (MVM_SPESH_LOG_RETURN i off ty fl)
  then show ?thesis
    using by_offset_facts(3)[of tss off] by (cases "by_offset tss off") simp
next
  case (MVM_SPESH_LOG_INVOKE i off v)
  then show ?thesis
    using by_offset_facts(3)[of tss off] by (cases "by_offset tss off") simp
qed simp_all

lemma incorporate_call_type_keeps:
  assumes "type_seen_at tss o' t c"
  shows "type_seen_at (incorporate_call_type env tss info) o' t c"
proof -
  obtain k tss' where bo:"by_offset tss (sct_bytecode_offset info) = (k, tss')"
    by (cases "by_offset tss (sct_bytecode_offset info)")
  from update_at_offset_keeps[OF bo _ _ assms,
         of "\<lambda>oss. add_type_tuple_at_offset env oss info"]
  show ?thesis using bo
    by(simp add: incorporate_call_type_def add_at_offset_offset add_other_keeps)
qed

lemma incorporate_call_type_arg_types:
  "bt_arg_types (incorporate_call_type env tss info) = bt_arg_types tss"
  using by_offset_facts(3)[of tss "sct_bytecode_offset info"]
  by (cases "by_offset tss (sct_bytecode_offset info)") (simp add: incorporate_call_type_def)

lemma foldl_offset_logs_keeps:
  "type_seen_at tss o' t c \<Longrightarrow> type_seen_at (foldl incorporate_offset_log tss es) o' t c"
  by (induction es arbitrary: tss) (simp_all add: incorporate_offset_log_keeps)

lemma foldl_offset_logs_adds:
  "e \<in> set es \<Longrightarrow> is_type_log e off t fl \<Longrightarrow>
   type_seen_at (foldl incorporate_offset_log tss es) off t (concrete_flag fl)"
proof (induction es arbitrary: tss)
  case Nil
  then show ?case by simp
next
  case (Cons x xs)
  show ?case
  proof (cases "x = e")
    case True
    with Cons.prems(2) show ?thesis
      by (simp add: foldl_offset_logs_keeps incorporate_offset_log_adds)
  next
    case False
    with Cons show ?thesis by simp
  qed
qed

lemma foldl_call_types_keeps:
  "type_seen_at tss o' t c \<Longrightarrow>
   type_seen_at (foldl (incorporate_call_type env) tss infos) o' t c"
  by (induction infos arbitrary: tss) (simp_all add: incorporate_call_type_keeps)

lemma foldl_arg_types:
  "bt_arg_types (foldl incorporate_offset_log tss es) = bt_arg_types tss"
  "bt_arg_types (foldl (incorporate_call_type env) tss infos) = bt_arg_types tss"
  by (induction es arbitrary: tss, simp_all add: incorporate_offset_log_arg_types)
     (induction infos arbitrary: tss, simp_all add: incorporate_call_type_arg_types)

lemma fold_into_by_type_adds:
  assumes "e \<in> set (simf_offset_logs simf)" "is_type_log e off t fl"
  shows "type_seen_at (fold_into_by_type env simf d tss) off t (concrete_flag fl)"
    and "bt_arg_types (fold_into_by_type env simf d tss) = bt_arg_types tss"
  using foldl_call_types_keeps[OF foldl_offset_logs_adds[OF assms], of env tss
          "simf_call_type_info simf"]
  by (simp_all add: fold_into_by_type_def Let_def type_seen_at_def foldl_arg_types)

lemma frame_grows_refl: "frame_grows f f"
  by (simp add: frame_grows_def)

lemma frame_grows_trans: "frame_grows f g \<Longrightarrow> frame_grows g h \<Longrightarrow> frame_grows f h"
  by (auto simp: frame_grows_def)

lemma stack_grows_refl: "stack_grows s s"
  by (simp add: stack_grows_def frame_grows_refl)

lemma by_type_Some:
  assumes "by_type env css ats = (Some j, css')"
  shows "j < length (bcs_by_type css')"
    and "take (cs_flag_count env (bcs_cs css)) (bt_arg_types (bcs_by_type css' ! j))
           = take (cs_flag_count env (bcs_cs css)) ats"
    and "bcs_cs css' = bcs_cs css"
  using assms
  by (auto simp: by_type_def Let_def zero_by_type_def nth_append
           split: option.splits if_splits dest: first_index_Some)

lemma by_type_resolves:
  assumes "bcs_cs css \<noteq> 0" "\<not> cs_without_object_args env (bcs_cs css)"
    "\<not> incomplete_type_tuple env (bcs_cs css) ats"
  shows "\<exists>j css'. by_type env css ats = (Some j, css')"
  using assms by (auto simp: by_type_def Let_def split: option.splits)

lemma pop_records_type:
  assumes fr: "sims_frames t = fs @ [c]"
    and e: "e \<in> set (simf_offset_logs c)" "is_type_log e off ty fl"
    and cs: "frame_callsite t c = Some cs" "cs \<noteq> 0" "\<not> cs_without_object_args env cs"
      "\<not> incomplete_type_tuple env cs (simf_arg_types c)"
    and pop: "sim_stack_pop env t = Some t'"
  shows "\<exists>ss' bt. spesh_stats t' (simf_sf c) = Some ss'
          \<and> simf_callsite_idx c < length (ss_by_callsite ss')
          \<and> bt \<in> set (bcs_by_type (ss_by_callsite ss' ! simf_callsite_idx c))
          \<and> take (cs_flag_count env cs) (bt_arg_types bt)
               = take (cs_flag_count env cs) (simf_arg_types c)
          \<and> type_seen_at bt off ty (concrete_flag fl)"
proof -
  let ?i = "simf_callsite_idx c"
  from cs(1) obtain ss where ss: "spesh_stats t (simf_sf c) = Some ss"
    and idx: "?i < length (ss_by_callsite ss)"
    and csv: "cs = bcs_cs (ss_by_callsite ss ! ?i)"
    by (auto simp: frame_callsite_def split: option.splits if_splits)
  let ?ss1 = "pop_callsite_level c (sims_depth t) ss"
  let ?css = "ss_by_callsite ?ss1 ! ?i"
  have idx1: "?i < length (ss_by_callsite ?ss1)"
    using idx by (simp add: pop_callsite_level_keeps(1))
  have cs1: "bcs_cs ?css = cs"
  proof -
    have "bcs_cs ?css = map bcs_cs (ss_by_callsite ?ss1) ! ?i"
      using idx1 by simp
    then show ?thesis using idx csv by (simp add: pop_callsite_level_keeps(4))
  qed
  from by_type_resolves[of ?css env "simf_arg_types c"] cs(2,3,4) cs1
  obtain j css' where bt: "by_type env ?css (simf_arg_types c) = (Some j, css')"
    by auto
  note j = by_type_Some[OF bt]
  let ?tss = "fold_into_by_type env c (sims_depth t) (bcs_by_type css' ! j)"
  let ?css'' = "css'\<lparr>bcs_by_type := (bcs_by_type css')[j := ?tss]\<rparr>"
  let ?ss' = "?ss1\<lparr>ss_by_callsite := (ss_by_callsite ?ss1)[?i := ?css'']\<rparr>"
  have st': "spesh_stats t' (simf_sf c) = Some ?ss'"
    using pop fr ss idx bt csv
    by (auto simp: sim_stack_pop_def Let_def split: if_splits)
  have mem: "?tss \<in> set (bcs_by_type (ss_by_callsite ?ss' ! ?i))"
    using idx1 j(1) by (simp add: set_update_memI)
  have seen: "type_seen_at ?tss off ty (concrete_flag fl)"
    and ats: "bt_arg_types ?tss = bt_arg_types (bcs_by_type css' ! j)"
    using fold_into_by_type_adds[OF e] by simp_all
  have tk: "take (cs_flag_count env cs) (bt_arg_types ?tss)
               = take (cs_flag_count env cs) (simf_arg_types c)"
    using j(2) ats cs1 by simp
  show ?thesis
    using st' idx1 mem tk seen by (intro exI[of _ ?ss'] exI[of _ ?tss]) simp
qed


lemma sim_stack_pop_grows:
  assumes "sim_stack_pop env s = Some s'"
  shows "length (sims_frames s') = length (sims_frames s) - 1" and "stack_grows s s'"
proof -
  from assms have ne: "sims_frames s \<noteq> []"
    by (auto simp: sim_stack_pop_def split: if_splits)
  then obtain gs h where fr: "sims_frames s = gs @ [h]"
    by (cases "sims_frames s" rule: rev_cases) auto
  from sim_stack_pop_frames[OF assms fr]
  consider "sims_frames s' = gs"
    | gs' c info where "gs = gs' @ [c]"
        "sims_frames s' = gs' @ [c\<lparr>simf_call_type_info := simf_call_type_info c @ [info]\<rparr>]"
    by blast
  then have "length (sims_frames s') = length gs \<and>
     (\<forall>k<length gs. frame_grows (gs ! k) (sims_frames s' ! k))"
  proof cases
    case 1
    then show ?thesis by (simp add: frame_grows_refl)
  next
    case 2
    then show ?thesis
      by (auto simp: nth_append frame_grows_def)
  qed
  then show "length (sims_frames s') = length (sims_frames s) - 1" and "stack_grows s s'"
    using fr by (auto simp: stack_grows_def nth_append)
qed

lemma stack_grows_trans_shrink:
  assumes "stack_grows s t" "stack_grows t u" "length (sims_frames u) \<le> length (sims_frames t)"
  shows "stack_grows s u"
  using assms unfolding stack_grows_def
  by (meson frame_grows_trans le_trans not_le order.strict_trans2)

lemma pop_times_grows:
  "pop_times env n s = Some s' \<Longrightarrow>
     length (sims_frames s') = length (sims_frames s) - n \<and> stack_grows s s'"
proof (induction n arbitrary: s)
  case 0
  then show ?case by (simp add: stack_grows_refl)
next
  case (Suc n)
  then obtain s1 where pop: "sim_stack_pop env s = Some s1"
    and rest: "pop_times env n s1 = Some s'"
    by (auto split: option.splits)
  from Suc.IH[OF rest] sim_stack_pop_grows[OF pop]
  have l: "length (sims_frames s') = length (sims_frames s) - Suc n"
    and g: "stack_grows s s1" "stack_grows s1 s'"
    and le: "length (sims_frames s') \<le> length (sims_frames s1)"
    by auto
  from stack_grows_trans_shrink[OF g le] l show ?case by simp
qed

lemma sim_stack_find_grows:
  "sim_stack_find env s cid = Some (r, s') \<Longrightarrow>
     length (sims_frames s') \<le> length (sims_frames s) \<and> stack_grows s s'"
  by (auto simp: sim_stack_find_def Let_def stack_grows_refl
           split: option.splits dest: pop_times_grows)

lemma set_frame_grows:
  assumes "frame_grows (sims_frames s ! k) f"
  shows "length (sims_frames (set_frame s k f)) \<le> length (sims_frames s)
         \<and> stack_grows s (set_frame s k f)"
proof -
  have "frame_grows (sims_frames s ! j) ((sims_frames s)[k := f] ! j)"
    if "j < length (sims_frames s)" for j
    using that assms by (cases "j = k") (simp_all add: frame_grows_refl)
  then show ?thesis by (simp add: set_frame_def stack_grows_def)
qed

lemma attribute_return_grows:
  "length (sims_frames (attribute_return env sf i type flags s)) = length (sims_frames s)"
  "stack_grows s (attribute_return env sf i type flags s)"
proof -
  show "length (sims_frames (attribute_return env sf i type flags s)) = length (sims_frames s)"
    by (cases "sims_frames s" rule: rev_cases) (simp_all add: attribute_return_def Let_def)
  show "stack_grows s (attribute_return env sf i type flags s)"
    by (cases "sims_frames s" rule: rev_cases)
       (auto simp: attribute_return_def Let_def stack_grows_def frame_grows_def nth_append)
qed

lemma apply_offset_log_grows:
  "length (sims_frames (apply_offset_log s k e)) \<le> length (sims_frames s)
     \<and> stack_grows s (apply_offset_log s k e)"
  unfolding apply_offset_log_def Let_def
  by (rule set_frame_grows) (auto simp: frame_grows_def split: MVMSpeshLogEntry.splits)

lemma apply_osr_grows:
  "length (sims_frames (apply_osr s k)) \<le> length (sims_frames s)
     \<and> stack_grows s (apply_osr s k)"
  unfolding apply_osr_def Let_def
  by (rule set_frame_grows) (simp add: frame_grows_def)

lemma apply_parameter_grows:
  assumes "apply_parameter env s k d a ty fl = Some s'"
  shows "length (sims_frames s') \<le> length (sims_frames s) \<and> stack_grows s s'"
proof (cases "param_type env s (sims_frames s ! k) a")
  case None
  with assms show ?thesis by (simp add: apply_parameter_def Let_def)
next
  case (Some r)
  show ?thesis
  proof (cases r)
    case None
    with Some assms show ?thesis by (simp add: apply_parameter_def Let_def stack_grows_refl)
  next
    case (Some j)
    with \<open>param_type env s (sims_frames s ! k) a = Some r\<close> assms
    obtain slot where "s' = set_frame s k
        ((sims_frames s ! k)\<lparr>simf_arg_types := (simf_arg_types (sims_frames s ! k))[j := slot]\<rparr>)"
      by (auto simp: apply_parameter_def Let_def)
    moreover have "frame_grows (sims_frames s ! k)
        ((sims_frames s ! k)\<lparr>simf_arg_types := (simf_arg_types (sims_frames s ! k))[j := slot]\<rparr>)"
      by (simp add: frame_grows_def)
    ultimately show ?thesis using set_frame_grows by simp
  qed
qed

lemma apply_to_frame_grows:
  assumes "apply_to_frame env s k e = Some s'"
  shows "length (sims_frames s') \<le> length (sims_frames s) \<and> stack_grows s s'"
proof (cases e)
  case (MVM_SPESH_LOG_ENTRY i sf cs)
  with assms show ?thesis by (simp add: stack_grows_refl)
next
  case (MVM_SPESH_LOG_PARAMETER i a ty fl)
  with assms show ?thesis by (auto dest: apply_parameter_grows)
next
  case (MVM_SPESH_LOG_PARAMETER_DECONT i a ty fl)
  with assms show ?thesis by (auto dest: apply_parameter_grows)
next
  case (MVM_SPESH_LOG_TYPE i off ty fl)
  with assms show ?thesis using apply_offset_log_grows by auto
next
  case (MVM_SPESH_LOG_INVOKE i off v)
  with assms show ?thesis using apply_offset_log_grows by auto
next
  case (MVM_SPESH_LOG_OSR i)
  with assms show ?thesis using apply_osr_grows by auto
next
  case (MVM_SPESH_LOG_STATIC i off v)
  with assms show ?thesis
    by (auto simp: apply_static_def Let_def stack_grows_def frame_grows_refl
             split: option.splits)
next
  case (MVM_SPESH_LOG_RETURN i off ty fl)
  with assms obtain s1 where pop: "sim_stack_pop env s = Some s1"
    and s': "s' = attribute_return env (simf_sf (sims_frames s ! k)) i ty fl s1"
    by (auto simp: apply_return_def Let_def split: option.splits)
  from sim_stack_pop_grows[OF pop] attribute_return_grows[where env=env and i=i and type=ty and flags=fl and s=s1] s'
  have "length (sims_frames s') \<le> length (sims_frames s)"
    and g: "stack_grows s s1" "stack_grows s1 s'"
    and le: "length (sims_frames s') \<le> length (sims_frames s1)"
    by auto
  with stack_grows_trans_shrink[OF g le] show ?thesis by simp
qed

lemma update_entry_grows:
  assumes "update_entry env s i sf cs = Some s'"
  shows "stack_grows s s'"
proof -
  from assms obtain new where "sims_frames s' = sims_frames s @ [new]"
    by (auto simp: update_entry_def Let_def sim_stack_push_def
             split: prod.splits option.splits if_splits)
  then show ?thesis
    by (simp add: stack_grows_def nth_append frame_grows_refl)
qed

lemma update_event_grows:
  assumes "update_event env s e = Some s'"
  shows "stack_grows s s'"
proof (cases "is_entry e")
  case True
  then obtain i sf cs where "e = MVM_SPESH_LOG_ENTRY i sf cs" by (cases e) auto
  with assms show ?thesis by (auto dest: update_entry_grows)
next
  case False
  from assms obtain r s1 where f: "sim_stack_find env s (entry_id e) = Some (r, s1)"
    by (cases "sim_stack_find env s (entry_id e)")
       (auto simp: update_event_non_entry[OF False])
  note g1 = sim_stack_find_grows[OF f]
  show ?thesis
  proof (cases r)
    case None
    with assms f False have "s' = s1" by (simp add: update_event_non_entry)
    with g1 show ?thesis by simp
  next
    case (Some k)
    with assms f False have "apply_to_frame env s1 k e = Some s'"
      by (simp add: update_event_non_entry)
    from apply_to_frame_grows[OF this] g1 show ?thesis
      using stack_grows_trans_shrink by blast
  qed
qed

lemma update_loop_grows:
  assumes "update_loop env s es = Some s'"
    and "\<forall>n\<le>length es. \<forall>t. update_loop env s (take n es) = Some t
            \<longrightarrow> k < length (sims_frames t)"
  shows "k < length (sims_frames s') \<and> frame_grows (sims_frames s ! k) (sims_frames s' ! k)"
  using assms
proof (induction es arbitrary: s)
  case Nil
  then show ?case by (auto simp: frame_grows_refl)
next
  case (Cons e es)
  from Cons.prems(1) obtain u where ev: "update_event env s e = Some u"
    and rest: "update_loop env u es = Some s'"
    by (auto split: option.splits)
  have k0: "k < length (sims_frames s)"
    using Cons.prems(2)[rule_format, of 0 s] by simp
  have k1: "k < length (sims_frames u)"
    using Cons.prems(2)[rule_format, of 1 u] ev by simp
  have stay: "\<forall>n\<le>length es. \<forall>t. update_loop env u (take n es) = Some t
            \<longrightarrow> k < length (sims_frames t)"
  proof (intro allI impI)
    fix n t assume "n \<le> length es" "update_loop env u (take n es) = Some t"
    then show "k < length (sims_frames t)"
      using Cons.prems(2)[rule_format, of "Suc n" t] ev by simp
  qed
  from Cons.IH[OF rest stay] update_event_grows[OF ev] k0 k1
  show ?case
    unfolding stack_grows_def using frame_grows_trans by blast
qed

lemma return_step:
  assumes fr: "sims_frames s = lo @ [caller, callee] @ hi"
    and top: "\<forall>g\<in>set hi. simf_cid g \<noteq> i"
    and len: "length (sims_frames s) < 2 ^ 31"
    and cid: "simf_cid callee = i"
    and ty: "type \<noteq> 0"
    and lic: "simf_last_invoke_code caller \<noteq> 0"
      "is_concrete_code env (simf_last_invoke_code caller)"
      "code_sf env (simf_last_invoke_code caller) = simf_sf callee"
    and ev: "update_event env s (MVM_SPESH_LOG_RETURN i off type flags) = Some s1"
  shows "\<exists>c1. sims_frames s1 = lo @ [c1] \<and> frame_grows caller c1
           \<and> MVM_SPESH_LOG_RETURN i (simf_last_invoke_offset caller) type flags
                \<in> set (simf_offset_logs c1)"
proof -
  have fr': "sims_frames s = (lo @ [caller]) @ callee # hi" using fr by simp
  have find: "sim_stack_find env s i =
     (case pop_times env (length hi) s of None \<Rightarrow> None
      | Some u \<Rightarrow> Some (Some (length (lo @ [caller])), u))"
    by (rule sim_stack_find_match[OF fr' cid top len])
  with ev obtain u where pops: "pop_times env (length hi) s = Some u"
    and ar: "apply_return env u (Suc (length lo)) i type flags = Some s1"
    by (cases "pop_times env (length hi) s") auto
  from pop_times_frames[OF pops fr'] obtain infos where
    fu: "sims_frames u = (lo @ [caller]) @
           [callee\<lparr>simf_call_type_info := simf_call_type_info callee @ infos\<rparr>]"
    by auto
  let ?callee = "callee\<lparr>simf_call_type_info := simf_call_type_info callee @ infos\<rparr>"
  have callee: "sims_frames u ! Suc (length lo) = ?callee"
    using fu by (simp add: nth_append)
  from ar obtain s' where pop: "sim_stack_pop env u = Some s'"
    and s1: "s1 = attribute_return env (simf_sf callee) i type flags s'"
    by (auto simp: apply_return_def Let_def callee split: option.splits)
  from sim_stack_pop_frames[OF pop fu]
  obtain c0 where c0: "sims_frames s' = lo @ [c0]"
    and c0': "c0 = caller \<or> (\<exists>info. c0 = caller\<lparr>simf_call_type_info :=
                   simf_call_type_info caller @ [info]\<rparr>)"
    by auto
  let ?c1 = "c0\<lparr>simf_offset_logs := simf_offset_logs c0 @
                  [MVM_SPESH_LOG_RETURN i (simf_last_invoke_offset c0) type flags]\<rparr>"
  have same: "simf_last_invoke_code c0 = simf_last_invoke_code caller"
    "simf_last_invoke_offset c0 = simf_last_invoke_offset caller"
    "simf_sf c0 = simf_sf caller" "simf_cid c0 = simf_cid caller"
    "simf_callsite_idx c0 = simf_callsite_idx caller"
    "simf_offset_logs c0 = simf_offset_logs caller"
    using c0' by auto
  have "sims_frames s1 = lo @ [?c1]"
    using s1 c0 ty lic same by (simp add: attribute_return_def Let_def)
  moreover have "frame_grows caller ?c1"
    using same by (auto simp: frame_grows_def)
  moreover have "MVM_SPESH_LOG_RETURN i (simf_last_invoke_offset caller) type flags
                \<in> set (simf_offset_logs ?c1)"
    using same by simp
  ultimately show ?thesis by blast
qed


text \<open>
  Claim C1, as the code has it.  Let a \<open>RETURN\<close> entry carrying a type address a
  frame of the stack, the topmost with its correlation id, whether on top or below
  frames that \<open>sim_stack_find\<close> pops first, and let the caller below it have, as last
  invocation, a concrete code object of the returning frame's static frame.  Then,
  whatever entries follow while
  the caller stays on the stack, once the frames above the caller are popped and the
  caller itself is popped \<^emph>\<open>with a type tuple that resolves\<close> (its callsite is not null,
  has an object argument, and its tuple is complete), the statistics of the caller's
  static frame hold, under the caller's callsite, a by-type record for the caller's
  tuple with the returned type and its concrete flag among the type counts at the
  offset that was the caller's \<open>last_invoke_offset\<close> when the \<open>RETURN\<close> was processed.
\<close>

theorem return_attribution:
  assumes fr: "sims_frames s = lo @ [caller, callee] @ hi"
    and top: "\<forall>g\<in>set hi. simf_cid g \<noteq> i"
    and len: "length (sims_frames s) < 2 ^ 31"
    and cid: "simf_cid callee = i"
    and ty: "type \<noteq> 0"
    and lic: "simf_last_invoke_code caller \<noteq> 0"
      "is_concrete_code env (simf_last_invoke_code caller)"
      "code_sf env (simf_last_invoke_code caller) = simf_sf callee"
    and ev: "update_event env s (MVM_SPESH_LOG_RETURN i off type flags) = Some s1"
    and run: "update_loop env s1 es = Some s2"
    and stay: "\<forall>n\<le>length es. \<forall>u. update_loop env s1 (take n es) = Some u
                 \<longrightarrow> length lo < length (sims_frames u)"
    and pops: "pop_times env (length (sims_frames s2) - Suc (length lo)) s2 = Some t"
    and cs: "frame_callsite t (last (sims_frames t)) = Some cs" "cs \<noteq> 0"
      "\<not> cs_without_object_args env cs"
      "\<not> incomplete_type_tuple env cs (simf_arg_types (last (sims_frames t)))"
    and pop: "sim_stack_pop env t = Some t'"
  shows "length (sims_frames t) = Suc (length lo)
     \<and> simf_sf (last (sims_frames t)) = simf_sf caller
     \<and> (\<exists>ss' bt. spesh_stats t' (simf_sf caller) = Some ss'
          \<and> simf_callsite_idx caller < length (ss_by_callsite ss')
          \<and> bt \<in> set (bcs_by_type (ss_by_callsite ss' ! simf_callsite_idx caller))
          \<and> take (cs_flag_count env cs) (bt_arg_types bt)
               = take (cs_flag_count env cs) (simf_arg_types (last (sims_frames t)))
          \<and> type_seen_at bt (simf_last_invoke_offset caller) type (concrete_flag flags))"
proof -
  let ?k = "length lo"
  let ?e = "MVM_SPESH_LOG_RETURN i (simf_last_invoke_offset caller) type flags"
  from return_step[OF fr top len cid ty lic ev]
  obtain c1 where c1: "sims_frames s1 = lo @ [c1]" "frame_grows caller c1"
    "?e \<in> set (simf_offset_logs c1)" by blast
  from update_loop_grows[OF run stay] c1(1)
  have k2: "?k < length (sims_frames s2)"
    and g2: "frame_grows c1 (sims_frames s2 ! ?k)" by simp_all
  from pop_times_grows[OF pops] k2
  have lt: "length (sims_frames t) = Suc ?k" and gt: "stack_grows s2 t" by auto
  define c where "c = last (sims_frames t)"
  have ne: "sims_frames t \<noteq> []" using lt by auto
  have ck: "c = sims_frames t ! ?k"
    using lt ne unfolding c_def by (simp add: last_conv_nth)
  have frt: "sims_frames t = take ?k (sims_frames t) @ [c]"
    using lt ne unfolding c_def by (metis append_butlast_last_id butlast_conv_take diff_Suc_1)
  have "frame_grows (sims_frames s2 ! ?k) c"
    using gt k2 lt ck by (simp add: stack_grows_def)
  with c1(2) g2 have gc: "frame_grows caller c"
    using frame_grows_trans by blast
  have ec: "?e \<in> set (simf_offset_logs c)"
    using c1(3) g2 \<open>frame_grows (sims_frames s2 ! ?k) c\<close>
    by (auto simp: frame_grows_def)
  have itl: "is_type_log ?e (simf_last_invoke_offset caller) type flags" by simp
  from pop_records_type[OF frt ec itl cs[folded c_def] pop]
  obtain ss' bt where r: "spesh_stats t' (simf_sf c) = Some ss'"
    "simf_callsite_idx c < length (ss_by_callsite ss')"
    "bt \<in> set (bcs_by_type (ss_by_callsite ss' ! simf_callsite_idx c))"
    "take (cs_flag_count env cs) (bt_arg_types bt)
               = take (cs_flag_count env cs) (simf_arg_types c)"
    "type_seen_at bt (simf_last_invoke_offset caller) type (concrete_flag flags)"
    by blast
  have eqs: "simf_sf c = simf_sf caller" "simf_callsite_idx c = simf_callsite_idx caller"
    using gc by (simp_all add: frame_grows_def)
  show ?thesis
    using lt r eqs unfolding c_def[symmetric] by auto
qed

text \<open>
  Without the condition on the caller's tuple the claim fails: in the run below both
  frames have the null callsite, the \<open>RETURN\<close> meets every condition of the claim,
  and the caller's statistics end without any by-type record.
\<close>

theorem return_attribution_counterexample:
  "map simf_cid (sims_frames (ex_called 0)) = [1, 2]
   \<and> map simf_sf (sims_frames (ex_called 0)) = [1, 2]
   \<and> map simf_last_invoke_code (sims_frames (ex_called 0)) = [20, 0]
   \<and> is_concrete_code ex_env 20 \<and> code_sf ex_env 20 = 2
   \<and> by_types_of (MVM_spesh_stats_update ex_env
          (ex_call_log 0 @ [MVM_SPESH_LOG_RETURN 2 7 11 1]) no_stats []) 1 = Some [[]]"
  by code_simp


lemma some_the: "x \<noteq> None \<Longrightarrow> x = Some (the x)"
  by auto


theorem return_attribution_witness:
  "map simf_cid (sims_frames ex_deeper) = [1, 2, 3]
   \<and> length (sims_frames ex_on_top) = 1 \<and> simf_sf (last (sims_frames ex_on_top)) = 1
   \<and> (\<exists>ss' bt. spesh_stats ex_popped 1 = Some ss'
          \<and> bt \<in> set (bcs_by_type (ss_by_callsite ss' ! 0))
          \<and> type_seen_at bt 42 11 1)"
proof -
  let ?caller = "sims_frames ex_deeper ! 0" and ?callee = "sims_frames ex_deeper ! 1"
    and ?above = "sims_frames ex_deeper ! 2"
  have fr: "sims_frames ex_deeper = [] @ [?caller, ?callee] @ [?above]" by code_simp
  have "simf_cid ?above \<noteq> 2" by code_simp
  then have top: "\<forall>g\<in>set [?above]. simf_cid g \<noteq> 2" by simp
  have "length (sims_frames ex_deeper) = 3" by code_simp
  then have len: "length (sims_frames ex_deeper) < 2 ^ 31" by simp
  have cid: "simf_cid ?callee = 2" by code_simp
  have ty: "(11::nat) \<noteq> 0" by simp
  have lic: "simf_last_invoke_code ?caller \<noteq> 0"
    "is_concrete_code ex_env (simf_last_invoke_code ?caller)"
    "code_sf ex_env (simf_last_invoke_code ?caller) = simf_sf ?callee"
    by code_simp+
  have ev: "update_event ex_env ex_deeper (MVM_SPESH_LOG_RETURN 2 7 11 1) = Some ex_returned"
    unfolding ex_returned_def by (rule some_the) code_simp
  have run: "update_loop ex_env ex_returned [MVM_SPESH_LOG_ENTRY 4 2 5] = Some ex_later"
    unfolding ex_later_def by (rule some_the) code_simp
  have stay: "\<forall>n\<le>length [MVM_SPESH_LOG_ENTRY 4 2 5]. \<forall>u.
      update_loop ex_env ex_returned (take n [MVM_SPESH_LOG_ENTRY 4 2 5]) = Some u
        \<longrightarrow> length ([]::SimStackFrame list) < length (sims_frames u)"
  proof (intro allI impI)
    fix n u
    assume n: "n \<le> length [MVM_SPESH_LOG_ENTRY 4 2 5]"
      and u: "update_loop ex_env ex_returned (take n [MVM_SPESH_LOG_ENTRY 4 2 5]) = Some u"
    have l1: "length (sims_frames ex_returned) = 1" by code_simp
    have l2: "length (sims_frames ex_later) = 2" by code_simp
    from n have "n = 0 \<or> n = 1" by auto
    then show "length ([]::SimStackFrame list) < length (sims_frames u)"
    proof
      assume "n = 0"
      with u have "u = ex_returned" by simp
      with l1 show ?thesis by simp
    next
      assume "n = 1"
      with u run have "u = ex_later" by simp
      with l2 show ?thesis by simp
    qed
  qed
  have l2: "length (sims_frames ex_later) - Suc (length ([]::SimStackFrame list)) = 1"
    by code_simp
  have pops: "pop_times ex_env (length (sims_frames ex_later)
                - Suc (length ([]::SimStackFrame list))) ex_later = Some ex_on_top"
    unfolding l2 ex_on_top_def by (rule some_the) code_simp
  have cs: "frame_callsite ex_on_top (last (sims_frames ex_on_top)) = Some 5" "(5::nat) \<noteq> 0"
    "\<not> cs_without_object_args ex_env 5"
    "\<not> incomplete_type_tuple ex_env 5 (simf_arg_types (last (sims_frames ex_on_top)))"
    by code_simp+
  have pop: "sim_stack_pop ex_env ex_on_top = Some ex_popped"
    unfolding ex_popped_def by (rule some_the) code_simp
  have vals: "simf_sf ?caller = 1" "simf_callsite_idx ?caller = 0"
    "simf_last_invoke_offset ?caller = 42" "concrete_flag 1 = 1"
    by code_simp+
  from return_attribution[OF fr top len cid ty lic ev run stay pops cs pop]
  have "length (sims_frames ex_on_top) = 1 \<and> simf_sf (last (sims_frames ex_on_top)) = 1
   \<and> (\<exists>ss' bt. spesh_stats ex_popped 1 = Some ss'
          \<and> bt \<in> set (bcs_by_type (ss_by_callsite ss' ! 0))
          \<and> type_seen_at bt 42 11 1)"
    unfolding vals by auto
  moreover have "map simf_cid (sims_frames ex_deeper) = [1, 2, 3]" by code_simp
  ultimately show ?thesis by blast
qed


section \<open>Properties of the hash tables\<close>

subsection \<open>The overflow region\<close>

lemma k_cases:
  "3 \<le> k \<Longrightarrow> k \<le> 31 \<Longrightarrow> k \<in> {3,4,5,6,7,8,9,10,11,12,13,14,15,16,17,18,19,20,21,22,23,24,25,26,27,28,29,30,31::nat}"
  by simp arith

lemma uni_alloc_overflow:
  assumes "3 \<le> k" "k \<le> 31"
  shows "uni_overflow_slots (uni_hash_allocate_common krs (2 ^ k))
           \<le> MVM_HASH_MAX_PROBE_DISTANCE - 1"
  using k_cases[OF assms]
  by (auto simp: uni_overflow_slots_def uni_hash_allocate_common_def times_load_factor_def
        MVM_HASH_MAX_PROBE_DISTANCE_def Let_def)

lemma ptr_alloc_overflow:
  assumes "3 \<le> k" "k \<le> 31"
  shows "ptr_overflow_slots (ptr_hash_allocate_common (c\<lparr>ptr_official_size := 2 ^ k\<rparr>))
           \<le> MVM_HASH_MAX_PROBE_DISTANCE"
  using k_cases[OF assms]
  by (auto simp: ptr_overflow_slots_def ptr_hash_allocate_common_def times_load_factor_def
        ptr_hash_true_size_def MVM_HASH_MAX_PROBE_DISTANCE_def Let_def)

lemma ptr_alloc_overflow_max:
  assumes "9 \<le> k" "k \<le> 31"
  shows "ptr_overflow_slots (ptr_hash_allocate_common (c\<lparr>ptr_official_size := 2 ^ k\<rparr>))
           = MVM_HASH_MAX_PROBE_DISTANCE"
proof -
  from assms have "3 \<le> k" by simp
  from k_cases[OF this assms(2)] assms(1) show ?thesis
    by (auto simp: ptr_overflow_slots_def ptr_hash_allocate_common_def times_load_factor_def
          ptr_hash_true_size_def MVM_HASH_MAX_PROBE_DISTANCE_def Let_def)
qed

lemma ptr_overflow_slots_allocate:
  "ptr_overflow_slots (ptr_hash_allocate_common c) =
     unat (ptr_hash_true_size (c\<lparr>ptr_max_items := times_load_factor (ptr_official_size c)\<rparr>))
       - unat (ptr_official_size c)"
  by (simp add: ptr_overflow_slots_def ptr_hash_allocate_common_def Let_def)

lemma ptr_official_size_allocate:
  "ptr_official_size (ptr_hash_allocate_common c) = ptr_official_size c"
  "ptr_key_right_shift (ptr_hash_allocate_common c) = ptr_key_right_shift c"
  by (simp_all add: ptr_hash_allocate_common_def Let_def)

text \<open>
  Claim C7, as the code has it.  The table of Unicode names stores
  \<open>probe_overflow_size\<close>, and for every official size \<open>2 ^ k\<close> from \<open>8\<close> to \<open>2 ^ 31\<close> it
  allocates at most \<open>MVM_HASH_MAX_PROBE_DISTANCE - 1\<close> slots beyond \<open>official_size\<close>.
  The pointer table allocates \<open>hash_true_size\<close> slots, which caps
  \<open>official_size + max_items - 1\<close> at \<open>official_size + MVM_HASH_MAX_PROBE_DISTANCE\<close>: it
  has at most \<open>MVM_HASH_MAX_PROBE_DISTANCE\<close> slots beyond \<open>official_size\<close>, and exactly
  that many from the official size \<open>512\<close> on.
\<close>

theorem overflow_slots_bounded:
  assumes "3 \<le> k" "k \<le> 31"
  shows "uni_overflow_slots (uni_hash_allocate_common krs (2 ^ k))
           \<le> MVM_HASH_MAX_PROBE_DISTANCE - 1
       \<and> ptr_overflow_slots (ptr_hash_allocate_common (c\<lparr>ptr_official_size := 2 ^ k\<rparr>))
           \<le> MVM_HASH_MAX_PROBE_DISTANCE
       \<and> (9 \<le> k \<longrightarrow>
            ptr_overflow_slots (ptr_hash_allocate_common (c\<lparr>ptr_official_size := 2 ^ k\<rparr>))
              = MVM_HASH_MAX_PROBE_DISTANCE)"
  using uni_alloc_overflow[OF assms] ptr_alloc_overflow[OF assms]
    ptr_alloc_overflow_max[OF _ assms(2)]
  by blast

text \<open>
  The pointer table grown six times from its initial allocation has the official size
  \<open>512\<close> and \<open>255\<close> slots beyond it, one more than \<open>MVM_HASH_MAX_PROBE_DISTANCE - 1\<close>.
\<close>

theorem overflow_slots_counterexample:
  "ptr_official_size ex_grown_table = 512
   \<and> ptr_overflow_slots ex_grown_table = 255
   \<and> \<not> ptr_overflow_slots ex_grown_table \<le> MVM_HASH_MAX_PROBE_DISTANCE - 1"
  by (simp add: ex_grown_table_def ptr_hash_grow_def ptr_overflow_slots_allocate
        ptr_official_size_allocate ptr_hash_initial_allocate_def PTR_INITIAL_SIZE_def
        ptr_hash_true_size_def times_load_factor_def MVM_HASH_MAX_PROBE_DISTANCE_def)

theorem overflow_slots_bounded_witness:
  "(3::nat) \<le> 9 \<and> (9::nat) \<le> 31
   \<and> uni_overflow_slots (uni_hash_allocate_common 23 (2 ^ 9)) \<le> MVM_HASH_MAX_PROBE_DISTANCE - 1
   \<and> ptr_overflow_slots (ptr_hash_allocate_common (zero_control\<lparr>ptr_official_size := 2 ^ 9\<rparr>))
         = MVM_HASH_MAX_PROBE_DISTANCE"
proof -
  have h: "(3::nat) \<le> 9" "(9::nat) \<le> 31" by simp_all
  from overflow_slots_bounded[OF h, of 23 zero_control] h show ?thesis by simp
qed


subsection \<open>The two probes agree\<close>




subsection \<open>A key that is present in the pointer table\<close>





lemma gap_loop_length:
  "gap_loop m ms = Some (ms', n, f) \<Longrightarrow> length ms' = length ms \<and> 1 \<le> n \<and> n \<le> length ms"
proof (induction ms arbitrary: m ms' n f)
  case Nil
  then show ?case by simp
next
  case (Cons a ms)
  show ?case
  proof (cases "a = 0")
    case True
    with Cons.prems show ?thesis by (auto simp: Let_def)
  next
    case False
    with Cons.prems obtain ms1 n1 f1 where
      g: "gap_loop a ms = Some (ms1, n1, f1)" and r: "ms' = (1 + m) # ms1" "n = Suc n1"
      by (auto simp: Let_def split: option.splits)
    from Cons.IH[OF g] r show ?thesis by simp
  qed
qed

lemma hash_insert_loop_inserted:
  "hash_insert_internal_loop same nk pd ms es = Inserted ms' es' k f \<Longrightarrow>
     k < length es \<and> length es' = length es \<and> length ms' = length ms \<and> es' ! k = nk (es ! k)"
proof (induction ms arbitrary: pd es ms' es' k)
  case Nil
  then show ?case by simp
next
  case (Cons m ms)
  from Cons.prems obtain e es0 where es: "es = e # es0" by (cases es) auto
  show ?case
  proof (cases "unat m < pd")
    case True
    show ?thesis
    proof (cases "m = 0")
      case True
      with \<open>unat m < pd\<close> Cons.prems es show ?thesis by auto
    next
      case False
      with True Cons.prems es obtain ms1 n f1 where
        g: "gap_loop m ms = Some (ms1, n, f1)" and n: "n \<le> length es0"
        and r: "ms' = word_of_nat pd # ms1" "k = 0"
          "es' = nk e # take n (e # es0) @ drop n es0"
        by (auto split: option.splits if_splits)
      from gap_loop_length[OF g] n r es show ?thesis by simp
    qed
  next
    case nlt: False
    with Cons.prems es have ns: "\<not> (unat m = pd \<and> same e)" by auto
    with nlt Cons.prems es obtain ms1 es1 k1 where
      rec: "hash_insert_internal_loop same nk (pd + 1) ms es0 = Inserted ms1 es1 k1 f"
      and r: "ms' = m # ms1" "es' = e # es1" "k = Suc k1"
      by (auto split: probe_result.splits)
    from Cons.IH[OF rec] r es show ?thesis by simp
  qed
qed







subsection \<open>A key that is present in the table of Unicode names\<close>










subsection \<open>Probing a run of entries\<close>

lemma unat_probe_distance:
  "pd \<le> 255 \<Longrightarrow> unat (word_of_nat pd :: 8 word) = pd"
  by (simp add: unat_of_nat take_bit_nat_eq_self)

lemma upt_run: "[pd..<pd + Suc n] = pd # [Suc pd..<Suc pd + n]"
proof -
  have "pd < pd + Suc n" by simp
  from upt_conv_Cons[OF this] show ?thesis by simp
qed

lemma hash_insert_loop_run:
  assumes "\<forall>e\<in>set ces. \<not> same e" "pd + length ces \<le> 255" "1 \<le> pd"
  shows "hash_insert_internal_loop same nk pd
           (map word_of_nat [pd..<pd + length ces] @ 0 # ms) (ces @ e # es)
         = Inserted (map word_of_nat [pd..<pd + length ces] @ word_of_nat (pd + length ces) # ms)
             (ces @ nk e # es) (length ces)
             (pd + length ces = MVM_HASH_MAX_PROBE_DISTANCE)"
  using assms
proof (induction ces arbitrary: pd)
  case Nil
  then show ?case by simp
next
  case (Cons c ces)
  from Cons.prems have pd: "pd \<le> 255" by simp
  have upt: "[pd..<pd + length (c # ces)] = pd # [Suc pd..<Suc pd + length ces]"
    using upt_run[of pd "length ces"] by simp
  from Cons.prems have ih: "hash_insert_internal_loop same nk (Suc pd)
           (map word_of_nat [Suc pd..<Suc pd + length ces] @ 0 # ms) (ces @ e # es)
         = Inserted (map word_of_nat [Suc pd..<Suc pd + length ces]
                      @ word_of_nat (Suc pd + length ces) # ms)
             (ces @ nk e # es) (length ces)
             (Suc pd + length ces = MVM_HASH_MAX_PROBE_DISTANCE)"
    by (intro Cons.IH) auto
  from Cons.prems have ns: "\<not> same c" by simp
  show ?case
    unfolding upt using ih ns unat_probe_distance[OF pd]
    by simp
qed

lemma hash_fetch_loop_run:
  assumes "\<forall>e\<in>set ces. \<not> same e" "pd + length ces \<le> 256" "1 \<le> pd"
  shows "hash_fetch_loop same pd
           (map word_of_nat [pd..<pd + length ces] @ 0 # ms) (ces @ es) = Inr None"
  using assms
proof (induction ces arbitrary: pd)
  case Nil
  then show ?case by simp
next
  case (Cons c ces)
  from Cons.prems have pd: "pd \<le> 255" by simp
  have upt: "[pd..<pd + length (c # ces)] = pd # [Suc pd..<Suc pd + length ces]"
    using upt_run[of pd "length ces"] by simp
  from Cons.prems have ih: "hash_fetch_loop same (Suc pd)
           (map word_of_nat [Suc pd..<Suc pd + length ces] @ 0 # ms) (ces @ es) = Inr None"
    by (intro Cons.IH) auto
  from Cons.prems have ns: "\<not> same c" by simp
  show ?case
    unfolding upt using ih ns unat_probe_distance[OF pd]
    by simp
qed


subsection \<open>Tables whose entries share the first bucket\<close>

lemma probe_bytes_simps [simp]:
  "length (probe_bytes n) = n"
  "probe_bytes 0 = []"
  "probe_bytes (Suc n) = probe_bytes n @ [word_of_nat (Suc n)]"
  by (simp_all add: probe_bytes_def)

lemma probe_bytes_nonzero:
  assumes "n \<le> 255"
  shows "\<forall>m\<in>set (probe_bytes n). m \<noteq> 0"
proof
  fix m :: "8 word" assume "m \<in> set (probe_bytes n)"
  then obtain i where i: "m = word_of_nat i" "1 \<le> i" "i \<le> n"
    by (auto simp: probe_bytes_def)
  with assms unat_probe_distance[of i] have "unat m = i" by simp
  with i show "m \<noteq> 0" by auto
qed

lemma replicate_pos: "0 < n \<Longrightarrow> replicate n x = x # replicate (n - 1) x"
  by (cases n) simp_all

lemma uni_run_sel:
  "uni_cur_items (uni_run cur maxi S krs ov T es) = cur"
  "uni_max_items (uni_run cur maxi S krs ov T es) = maxi"
  "uni_official_size (uni_run cur maxi S krs ov T es) = S"
  "uni_key_right_shift (uni_run cur maxi S krs ov T es) = krs"
  "uni_probe_overflow_size (uni_run cur maxi S krs ov T es) = ov"
  by (simp_all add: uni_run_def)

lemma uni_hash_insert_internal_run:
  assumes cap: "cur < maxi" and len: "length es < 255" "length es < T"
    and fresh: "\<forall>e\<in>set es. \<not> uni_same_key key hv e"
    and bucket: "drop_bit (unat krs) hv = 0"
  shows "uni_hash_insert_internal (uni_run cur maxi S krs ov T es) key hv
         = Inr (uni_run cur (if Suc (length es) = 255 then 0 else maxi) S krs ov T
                  (es @ [uni_null_entry]), length es)"
proof -
  let ?c = "uni_run cur maxi S krs ov T es"
  define M :: "8 word list" where "M = probe_bytes (length es)"
  define rest :: "8 word list" where "rest = replicate (T - length es - 1) 0 @ [1]"
  define erest where "erest = replicate (T - length es - 1) uni_null_entry"
  have b: "uni_bucket ?c hv = 0" using bucket by (simp add: uni_bucket_def uni_run_def)
  from len have r: "replicate (T - length es) x = x # replicate (T - length es - 1) x" for x :: 'a
    by (intro replicate_pos) simp
  have md: "uni_metadata ?c = M @ 0 # rest"
    by (simp add: uni_run_def r[of "0 :: 8 word"] M_def rest_def)
  have en: "uni_entries ?c = es @ uni_null_entry # erest"
    by (simp add: uni_run_def r[of uni_null_entry] erest_def)
  from len have l: "1 + length es \<le> 255" by simp
  have loop: "hash_insert_internal_loop (uni_same_key key hv) (\<lambda>e. e\<lparr>uhe_key := None\<rparr>) (Suc 0)
                (M @ 0 # rest) (es @ uni_null_entry # erest)
              = Inserted (M @ word_of_nat (1 + length es) # rest)
                  (es @ uni_null_entry\<lparr>uhe_key := None\<rparr> # erest) (length es)
                  (1 + length es = MVM_HASH_MAX_PROBE_DISTANCE)"
    unfolding M_def probe_bytes_def
    using hash_insert_loop_run[OF fresh l, of "\<lambda>e. e\<lparr>uhe_key := None\<rparr>" rest
        uni_null_entry erest] by simp
  have nk: "uni_null_entry\<lparr>uhe_key := None\<rparr> = uni_null_entry" by (simp add: uni_null_entry_def)
  have res: "uni_hash_insert_internal ?c key hv
      = Inr (?c\<lparr>uni_max_items := (if 1 + length es = MVM_HASH_MAX_PROBE_DISTANCE then 0
                                     else uni_max_items ?c),
                 uni_entries := es @ uni_null_entry # erest,
                 uni_metadata := M @ word_of_nat (1 + length es) # rest\<rparr>, length es)"
    using cap
    by (simp add: uni_hash_insert_internal_def b Let_def md en loop nk not_le[symmetric]
          uni_run_sel)
  from len have r2: "T - length es - 1 = T - Suc (length es)" by simp
  have "?c\<lparr>uni_max_items := (if 1 + length es = MVM_HASH_MAX_PROBE_DISTANCE then 0
                                     else uni_max_items ?c),
                 uni_entries := es @ uni_null_entry # erest,
                 uni_metadata := M @ word_of_nat (1 + length es) # rest\<rparr>
        = uni_run cur (if Suc (length es) = 255 then 0 else maxi) S krs ov T
                  (es @ [uni_null_entry])"
    by (simp add: uni_run_def M_def rest_def erest_def MVM_HASH_MAX_PROBE_DISTANCE_def r2)
  with res show ?thesis by simp
qed

lemma uni_run_set_entry:
  "(uni_run cur maxi S krs ov T (es @ [x]))
     \<lparr>uni_entries := (uni_entries (uni_run cur' maxi' S' krs' ov' T (es @ [x])))[length es := y]\<rparr>
   = uni_run cur maxi S krs ov T (es @ [y])"
  by (simp add: uni_run_def list_update_append)

lemma uni_run_nth:
  "uni_entries (uni_run cur maxi S krs ov T (es @ [x])) ! length es = x"
  by (simp add: uni_run_def nth_append)

lemma uni_run_cur:
  "(uni_run cur maxi S krs ov T es)\<lparr>uni_cur_items := c\<rparr> = uni_run c maxi S krs ov T es"
  by (simp add: uni_run_def)

lemma uni_insert_run:
  assumes cap: "cur < maxi" and len: "length es < 255" "length es < T"
    and fresh: "\<forall>e\<in>set es. uhe_key e \<noteq> Some key"
    and bucket: "drop_bit (unat krs) (h key) = 0"
  shows "MVM_uni_hash_insert rul h (Some (uni_run cur maxi S krs ov T es)) key v
         = Inr (Some (uni_run (cur + 1) (if Suc (length es) = 255 then 0 else maxi) S krs ov T
                  (es @ [uni_entry_of h (key, v)])))"
proof -
  define m where "m = (if Suc (length es) = 255 then 0 else maxi)"
  define j where "j = length es"
  from fresh have f: "\<forall>e\<in>set es. \<not> uni_same_key key (h key) e"
    by (simp add: uni_same_key_def)
  have ii: "uni_hash_insert_internal (uni_run cur maxi S krs ov T es) key (h key)
        = Inr (uni_run cur m S krs ov T (es @ [uni_null_entry]), length es)"
    unfolding m_def by (rule uni_hash_insert_internal_run[OF cap len f bucket])
  have k: "uhe_key uni_null_entry = None" by (simp add: uni_null_entry_def)
  have fi: "uni_fetch_or_insert h (uni_run cur maxi S krs ov T es) key
        = Inr (uni_run (cur + 1) m S krs ov T
                (es @ [uni_null_entry\<lparr>uhe_hash_val := h key\<rparr>]), length es)"
    unfolding uni_fetch_or_insert_def Let_def ii
    by (simp add: uni_run_nth uni_run_set_entry uni_run_cur uni_run_sel k)
  from cap have "\<not> maxi \<le> cur" by simp
  then have lf: "MVM_uni_hash_lvalue_fetch rul h (Some (uni_run cur maxi S krs ov T es)) key
        = Inr (uni_run (cur + 1) m S krs ov T
                (es @ [uni_null_entry\<lparr>uhe_hash_val := h key\<rparr>]), length es)"
    by (simp add: MVM_uni_hash_lvalue_fetch_def fi uni_run_sel)
  have e: "uni_null_entry\<lparr>uhe_hash_val := h key, uhe_key := Some key, uhe_value := v\<rparr>
             = uni_entry_of h (key, v)"
    by (simp add: uni_null_entry_def uni_entry_of_def)
  show ?thesis
    unfolding MVM_uni_hash_insert_def lf m_def[symmetric]
    by (simp add: uni_run_nth uni_run_set_entry k e)
qed


lemma uni_insert_all_append:
  "uni_insert_all rul h t (xs @ ys) =
     (case uni_insert_all rul h t xs of
        Inl err \<Rightarrow> Inl err
      | Inr t' \<Rightarrow> uni_insert_all rul h t' ys)"
  by (induction xs arbitrary: t) (auto split: sum.splits)

lemma unat_word_succ_le: "unat (w + 1 :: 32 word) \<le> unat w + 1"
proof -
  have "unat (w + 1) = (unat w + 1) mod 2 ^ 32" by (simp add: unat_word_ariths)
  then show ?thesis by (simp add: mod_less_eq_dividend)
qed

lemma uni_insert_all_run:
  assumes "distinct (map fst kvs)"
    "\<forall>e\<in>set es. \<forall>kv\<in>set kvs. uhe_key e \<noteq> Some (fst kv)"
    "length es + length kvs \<le> 255" "length es + length kvs \<le> T"
    "unat cur + length kvs \<le> unat maxi"
    "\<forall>kv\<in>set kvs. drop_bit (unat krs) (h (fst kv)) = 0"
  shows "uni_insert_all rul h (Some (uni_run cur maxi S krs ov T es)) kvs
         = Inr (Some (uni_run (cur + word_of_nat (length kvs))
                  (if kvs \<noteq> [] \<and> length es + length kvs = 255 then 0 else maxi) S krs ov T
                  (es @ map (uni_entry_of h) kvs)))"
  using assms
proof (induction kvs arbitrary: cur es)
  case Nil
  then show ?case by simp
next
  case (Cons kv rest)
  obtain k v where kv: "kv = (k, v)" by (cases kv)
  from Cons.prems(5) have cap: "cur < maxi" by (simp add: word_less_nat_alt)
  from Cons.prems have len: "length es < 255" "length es < T" by simp_all
  from Cons.prems(2) kv have fresh: "\<forall>e\<in>set es. uhe_key e \<noteq> Some k" by simp
  from Cons.prems(6) kv have bucket: "drop_bit (unat krs) (h k) = 0" by simp
  note step = uni_insert_run[where h=h and key=k and rul=rul and S=S and ov=ov and v=v,
      OF cap len fresh bucket]
  show ?case
  proof (cases "rest = []")
    case True
    with step kv show ?thesis by simp
  next
    case False
    with Cons.prems(3) have m: "(if Suc (length es) = 255 then 0 else maxi) = maxi"
      by (cases rest) auto
    have ih: "uni_insert_all rul h (Some (uni_run (cur + 1) maxi S krs ov T
                 (es @ [uni_entry_of h (k, v)]))) rest
         = Inr (Some (uni_run (cur + 1 + word_of_nat (length rest))
                  (if rest \<noteq> [] \<and> length (es @ [uni_entry_of h (k, v)]) + length rest = 255
                   then 0 else maxi) S krs ov T
                  ((es @ [uni_entry_of h (k, v)]) @ map (uni_entry_of h) rest)))"
    proof (rule Cons.IH)
      from Cons.prems(1) show "distinct (map fst rest)" by simp
      from Cons.prems(1,2) kv
      show "\<forall>e\<in>set (es @ [uni_entry_of h (k, v)]). \<forall>kv\<in>set rest. uhe_key e \<noteq> Some (fst kv)"
        by (auto simp: uni_entry_of_def)
      from Cons.prems(3) show "length (es @ [uni_entry_of h (k, v)]) + length rest \<le> 255"
        by simp
      from Cons.prems(4) show "length (es @ [uni_entry_of h (k, v)]) + length rest \<le> T"
        by simp
      from Cons.prems(5) unat_word_succ_le[of cur]
      show "unat (cur + 1) + length rest \<le> unat maxi" by simp
      from Cons.prems(6) show "\<forall>kv\<in>set rest. drop_bit (unat krs) (h (fst kv)) = 0" by simp
    qed
    show ?thesis
      using step ih m kv False by (simp add: add.assoc)
  qed
qed

lemma uni_fetch_run_absent:
  assumes "\<forall>e\<in>set es. uhe_key e \<noteq> Some key" "length es \<le> 255" "length es < T"
    "drop_bit (unat krs) (h key) = 0"
  shows "MVM_uni_hash_fetch h (Some (uni_run cur maxi S krs ov T es)) key = Inr None"
proof -
  let ?c = "uni_run cur maxi S krs ov T es"
  define M :: "8 word list" where "M = probe_bytes (length es)"
  define rest :: "8 word list" where "rest = replicate (T - length es - 1) 0 @ [1]"
  have b: "uni_bucket ?c (h key) = 0" using assms(4) by (simp add: uni_bucket_def uni_run_def)
  from assms(3) have r: "replicate (T - length es) (0 :: 8 word)
      = 0 # replicate (T - length es - 1) 0"
    by (intro replicate_pos) simp
  have md: "uni_metadata ?c = M @ 0 # rest"
    by (simp add: uni_run_def r M_def rest_def)
  have en: "uni_entries ?c = es @ replicate (T - length es) uni_null_entry"
    by (simp add: uni_run_def)
  from assms(1) have f: "\<forall>e\<in>set es. \<not> uni_same_key key (h key) e"
    by (simp add: uni_same_key_def)
  from assms(2) have l: "1 + length es \<le> 256" by simp
  have loop: "hash_fetch_loop (uni_same_key key (h key)) (Suc 0) (M @ 0 # rest)
                (es @ replicate (T - length es) uni_null_entry) = Inr None"
    unfolding M_def probe_bytes_def using hash_fetch_loop_run[OF f l, of rest] by simp
  show ?thesis
    by (simp add: MVM_uni_hash_fetch_def Let_def b md en loop)
qed

lemma uni_reinsert_append:
  "uni_reinsert c (xs @ ys) =
     (case uni_reinsert c xs of Inl err \<Rightarrow> Inl err | Inr c' \<Rightarrow> uni_reinsert c' ys)"
  by (induction c xs rule: uni_reinsert.induct) (auto split: sum.splits option.splits)

lemma uni_reinsert_empty:
  "uni_reinsert c (replicate n (0, e)) = Inr c"
  by (induction n) simp_all

lemma uni_reinsert_run:
  assumes "distinct (map fst kvs)"
    "\<forall>e\<in>set es. \<forall>kv\<in>set kvs. uhe_key e \<noteq> Some (fst kv)"
    "length es + length kvs \<le> 255" "length es + length kvs \<le> T"
    "cur < maxi" "length ms = length kvs" "\<forall>m\<in>set ms. m \<noteq> 0"
    "\<forall>kv\<in>set kvs. drop_bit (unat krs) (h (fst kv)) = 0"
  shows "uni_reinsert (uni_run cur maxi S krs ov T es) (zip ms (map (uni_entry_of h) kvs))
         = Inr (uni_run cur
                  (if kvs \<noteq> [] \<and> length es + length kvs = 255 then 0 else maxi) S krs ov T
                  (es @ map (uni_entry_of h) kvs))"
  using assms
proof (induction kvs arbitrary: es ms)
  case Nil
  then show ?case by simp
next
  case (Cons kv rest)
  from Cons.prems(6) obtain m ms' where ms: "ms = m # ms'" "length ms' = length rest"
    by (cases ms) auto
  with Cons.prems(7) have m0: "m \<noteq> 0" by simp
  obtain k v where kv: "kv = (k, v)" by (cases kv)
  from Cons.prems have len: "length es < 255" "length es < T" by simp_all
  from Cons.prems(2) kv have fresh: "\<forall>e\<in>set es. \<not> uni_same_key k (h k) e"
    by (simp add: uni_same_key_def)
  from Cons.prems(8) kv have bucket: "drop_bit (unat krs) (h k) = 0" by simp
  note ii = uni_hash_insert_internal_run[OF Cons.prems(5) len fresh bucket, of S ov]
  define m1 where "m1 = (if Suc (length es) = 255 then 0 else maxi)"
  have step: "uni_reinsert (uni_run cur maxi S krs ov T es)
                (zip ms (map (uni_entry_of h) (kv # rest)))
              = uni_reinsert (uni_run cur m1 S krs ov T (es @ [uni_entry_of h (k, v)]))
                  (zip ms' (map (uni_entry_of h) rest))"
    using m0 ii unfolding ms kv m1_def[symmetric]
    by (simp add: uni_entry_of_def uni_run_set_entry)
  show ?case
  proof (cases "rest = []")
    case True
    with step kv show ?thesis by (simp add: m1_def)
  next
    case False
    with Cons.prems(3) have m: "m1 = maxi"
      by (cases rest) (auto simp: m1_def)
    have ih: "uni_reinsert (uni_run cur maxi S krs ov T (es @ [uni_entry_of h (k, v)]))
                (zip ms' (map (uni_entry_of h) rest))
         = Inr (uni_run cur
                  (if rest \<noteq> [] \<and> length (es @ [uni_entry_of h (k, v)]) + length rest = 255
                   then 0 else maxi) S krs ov T
                  ((es @ [uni_entry_of h (k, v)]) @ map (uni_entry_of h) rest))"
    proof (rule Cons.IH)
      from Cons.prems(1) show "distinct (map fst rest)" by simp
      from Cons.prems(1,2) kv
      show "\<forall>e\<in>set (es @ [uni_entry_of h (k, v)]). \<forall>kv\<in>set rest. uhe_key e \<noteq> Some (fst kv)"
        by (auto simp: uni_entry_of_def)
      from Cons.prems(3) show "length (es @ [uni_entry_of h (k, v)]) + length rest \<le> 255"
        by simp
      from Cons.prems(4) show "length (es @ [uni_entry_of h (k, v)]) + length rest \<le> T"
        by simp
      show "cur < maxi" by fact
      show "length ms' = length rest" by fact
      from Cons.prems(7) ms show "\<forall>m\<in>set ms'. m \<noteq> 0" by simp
      from Cons.prems(8) show "\<forall>kv\<in>set rest. drop_bit (unat krs) (h (fst kv)) = 0" by simp
    qed
    show ?thesis
      using step ih m kv False by simp
  qed
qed


lemma ex_names_Suc:
  "ex_names (Suc n) = ex_names n @ [(replicate (Suc n) CHR ''a'', word_of_nat n)]"
  by (simp add: ex_names_def)

lemma ex_names_facts:
  "length (ex_names n) = n" "distinct (map fst (ex_names n))"
  "(k, v) \<in> set (ex_names n) \<Longrightarrow> length k \<le> n"
proof -
  show "length (ex_names n) = n" by (simp add: ex_names_def)
  have "inj_on (\<lambda>i. replicate (Suc i) CHR ''a'') (set [0..<n])"
    by (rule inj_onI) (metis length_replicate nat.inject)
  then show "distinct (map fst (ex_names n))"
    by (simp add: ex_names_def distinct_map comp_def)
  show "(k, v) \<in> set (ex_names n) \<Longrightarrow> length k \<le> n"
    by (auto simp: ex_names_def)
qed

lemma uni_run_old:
  assumes "length es \<le> T"
  shows "take T (zip (uni_metadata (uni_run cur maxi S krs ov T es))
                     (uni_entries (uni_run cur maxi S krs ov T es)))
         = zip (probe_bytes (length es)) es
             @ replicate (T - length es) (0, uni_null_entry)"
proof -
  have "zip (uni_metadata (uni_run cur maxi S krs ov T es))
                     (uni_entries (uni_run cur maxi S krs ov T es))
        = zip (probe_bytes (length es)) es @ replicate (T - length es) (0, uni_null_entry)"
    by (simp add: uni_run_def zip_append1 zip_replicate)
  moreover have "length (zip (probe_bytes (length es)) es
                   @ replicate (T - length es) (0 :: 8 word, uni_null_entry)) = T"
    using assms by simp
  ultimately show ?thesis by simp
qed

lemma uni_allocate_run:
  "uni_hash_allocate_common 22 1024 = uni_run 0 768 1024 22 254 1278 []"
  "uni_hash_allocate_common 23 512 = uni_run 0 384 512 23 254 766 []"
  by (simp_all add: uni_hash_allocate_common_def uni_run_def times_load_factor_def Let_def
        MVM_HASH_MAX_PROBE_DISTANCE_def)

lemma ex_build_run:
  "MVM_uni_hash_build ex_round_up_log_base2 256 = uni_run 0 384 512 23 254 766 []"
proof -
  have mn: "uni_min_needed 256 = 341" by (simp add: uni_min_needed_def)
  have r: "ex_round_up_log_base2 341 = 9" by code_simp
  show ?thesis
    by (simp add: MVM_uni_hash_build_def mn r Let_def UNI_MIN_SIZE_BASE_2_def uni_allocate_run
          uni_run_cur)
qed

lemma uni_lvalue_fetch_full_run:
  assumes d: "distinct (map fst kvs)" and fresh: "\<forall>kv\<in>set kvs. fst kv \<noteq> key"
    and len: "length kvs = 255"
    and h: "\<forall>kv\<in>set kvs. h (fst kv) = 0" "h key = 0"
  shows "MVM_uni_hash_lvalue_fetch rul h
           (Some (uni_run 255 0 512 23 254 766 (map (uni_entry_of h) kvs))) key
         = Inl Oops_recursive_grow"
proof -
  let ?es = "map (uni_entry_of h) kvs"
  let ?c = "uni_run 255 0 512 23 254 766 ?es"
  from fresh have f: "\<forall>e\<in>set ?es. uhe_key e \<noteq> Some key"
    by (auto simp: uni_entry_of_def)
  have fetch: "MVM_uni_hash_fetch h (Some ?c) key = Inr None"
    by (rule uni_fetch_run_absent[OF f]) (simp_all add: len h)
  have ts: "unat (uni_hash_true_size ?c) = 766"
    by (simp add: uni_hash_true_size_def uni_run_sel)
  have old: "take 766 (zip (uni_metadata ?c) (uni_entries ?c))
        = zip (probe_bytes (length kvs)) ?es @ replicate 511 (0, uni_null_entry)"
    using uni_run_old[of ?es 766 255 0 512 23 254] len by simp
  have c1: "(uni_hash_allocate_common (uni_key_right_shift ?c - 1) (uni_official_size ?c * 2))
              \<lparr>uni_cur_items := uni_cur_items ?c\<rparr> = uni_run 255 768 1024 22 254 1278 []"
    by (simp add: uni_run_sel uni_allocate_run uni_run_cur)
  have re: "uni_reinsert (uni_run 255 768 1024 22 254 1278 [])
              (zip (probe_bytes (length kvs)) ?es)
            = Inr (uni_run 255
                 (if kvs \<noteq> [] \<and> length ([] :: MVMUniHashEntry list) + length kvs = 255
                  then 0 else 768) 1024 22 254 1278 ([] @ ?es))"
  proof (rule uni_reinsert_run)
    show "distinct (map fst kvs)" by fact
    show "\<forall>e\<in>set []. \<forall>kv\<in>set kvs. uhe_key e \<noteq> Some (fst kv)" by simp
    show "length ([] :: MVMUniHashEntry list) + length kvs \<le> 255" using len by simp
    show "length ([] :: MVMUniHashEntry list) + length kvs \<le> 1278" using len by simp
    show "(255 :: 32 word) < 768" by simp
    show "length (probe_bytes (length kvs)) = length kvs" by simp
    show "\<forall>m\<in>set (probe_bytes (length kvs)). m \<noteq> 0"
      by (rule probe_bytes_nonzero) (simp add: len)
    show "\<forall>kv\<in>set kvs. drop_bit (unat (22 :: 8 word)) (h (fst kv)) = 0"
      using h(1) by simp
  qed
  from len have ne: "kvs \<noteq> []" by auto
  have re2: "uni_reinsert (uni_run 255 768 1024 22 254 1278 [])
               (zip (probe_bytes (length kvs)) ?es
                  @ replicate 511 (0, uni_null_entry))
             = Inr (uni_run 255 0 1024 22 254 1278 ?es)"
    using re ne len by (simp add: uni_reinsert_append uni_reinsert_empty)
  have fi: "uni_fetch_or_insert h (uni_run 255 0 1024 22 254 1278 ?es) key
              = Inl Oops_recursive_grow"
    by (simp add: uni_fetch_or_insert_def uni_hash_insert_internal_def uni_run_sel)
  have cap: "uni_max_items ?c \<le> uni_cur_items ?c" by (simp add: uni_run_sel)
  show ?thesis
    unfolding MVM_uni_hash_lvalue_fetch_def
    using cap fetch by (simp add: ts old c1 re2 fi Let_def)
qed


subsection \<open>Capacity after \<open>MVM_uni_hash_build\<close>\<close>

lemma build_size_facts:
  assumes "3 \<le> k" "k \<le> 31"
  shows "unat (2 ^ k :: 32 word) = 2 ^ k"
    "unat (times_load_factor (2 ^ k)) = 3 * 2 ^ k div 4"
  using k_cases[OF assms] by (auto simp: times_load_factor_def)

lemma load_factor_arith:
  assumes "(4 * n) div 3 \<le> 2 ^ b" "b \<le> k" "2 \<le> k"
  shows "n \<le> 3 * 2 ^ k div (4 :: nat)"
proof -
  from assms(3) obtain j where k: "k = j + 2" by (metis add.commute le_Suc_ex)
  have p: "(2 :: nat) ^ k = 4 * 2 ^ j" by (simp add: k)
  from assms(2) have "(2 :: nat) ^ b \<le> 2 ^ k" by (simp add: power_increasing)
  with assms(1) have "(4 * n) div 3 \<le> 4 * 2 ^ j" unfolding p by simp
  then have "n \<le> 3 * 2 ^ j" by arith
  then show ?thesis unfolding p by simp
qed

lemma uni_hash_build_sizes:
  assumes n: "unat entries < 3 * 2 ^ 30"
    and r1: "rul (uni_min_needed entries) \<le> 31"
    and r2: "unat (uni_min_needed entries) \<le> 2 ^ unat (rul (uni_min_needed entries))"
  shows "\<exists>k. 3 \<le> k \<and> k \<le> 31
           \<and> unat (uni_official_size (MVM_uni_hash_build rul entries)) = 2 ^ k
           \<and> unat (uni_max_items (MVM_uni_hash_build rul entries)) = 3 * 2 ^ k div 4
           \<and> entries \<le> uni_max_items (MVM_uni_hash_build rul entries)
           \<and> uni_cur_items (MVM_uni_hash_build rul entries) = 0"
proof -
  define b where "b = rul (uni_min_needed entries)"
  define isb :: "32 word" where
    "isb = (if entries = 0 then 3 else if b < 3 then 3 else b)"
  define k where "k = unat isb"
  have B: "MVM_uni_hash_build rul entries
     = (uni_hash_allocate_common (ucast (8 * 4 - isb)) (push_bit k 1))\<lparr>uni_cur_items := 0\<rparr>"
    by (simp add: MVM_uni_hash_build_def Let_def isb_def b_def k_def UNI_MIN_SIZE_BASE_2_def)
  from r1 have "3 \<le> isb" "isb \<le> 31" by (auto simp: isb_def b_def[symmetric])
  then have k: "3 \<le> k" "k \<le> 31" by (simp_all add: k_def word_le_nat_alt)
  have os: "unat (uni_official_size (MVM_uni_hash_build rul entries)) = 2 ^ k"
    by (simp add: B uni_hash_allocate_common_def Let_def build_size_facts[OF k])
  have mi: "unat (uni_max_items (MVM_uni_hash_build rul entries)) = 3 * 2 ^ k div 4"
    by (simp add: B uni_hash_allocate_common_def Let_def build_size_facts[OF k])
  have le: "unat entries \<le> 3 * 2 ^ k div 4"
  proof (cases "entries = 0")
    case True
    then show ?thesis by simp
  next
    case False
    from n have "4 * unat entries div 3 < 2 ^ 32" by simp
    then have mn: "unat (uni_min_needed entries) = 4 * unat entries div 3"
      by (simp add: uni_min_needed_def unat_of_nat take_bit_nat_eq_self)
    from False have "b \<le> isb" by (auto simp: isb_def)
    then have bk: "unat b \<le> k" by (simp add: k_def word_le_nat_alt)
    from r2 mn have "4 * unat entries div 3 \<le> 2 ^ unat b" by (simp add: b_def)
    from load_factor_arith[OF this bk] k show ?thesis by simp
  qed
  then have "entries \<le> uni_max_items (MVM_uni_hash_build rul entries)"
    by (simp add: word_le_nat_alt mi)
  moreover have "uni_cur_items (MVM_uni_hash_build rul entries) = 0" by (simp add: B)
  ultimately show ?thesis using k os mi by blast
qed

lemma uni_hash_insert_internal_frame:
  assumes "uni_hash_insert_internal c key hv = Inr (c', e)"
  shows "uni_official_size c' = uni_official_size c"
    "uni_key_right_shift c' = uni_key_right_shift c"
    "uni_cur_items c' = uni_cur_items c"
    "length (uni_entries c') = length (uni_entries c)"
    "uni_max_items c' = uni_max_items c \<or> uni_max_items c' = 0"
proof -
  let ?b = "uni_bucket c hv"
  let ?r = "hash_insert_internal_loop (uni_same_key key hv) (\<lambda>e. e\<lparr>uhe_key := None\<rparr>) 1
                (drop ?b (uni_metadata c)) (drop ?b (uni_entries c))"
  from assms have cap: "\<not> uni_max_items c \<le> uni_cur_items c"
    by (auto simp: uni_hash_insert_internal_def split: if_splits)
  have "uni_official_size c' = uni_official_size c \<and>
    uni_key_right_shift c' = uni_key_right_shift c \<and>
    uni_cur_items c' = uni_cur_items c \<and>
    length (uni_entries c') = length (uni_entries c) \<and>
    (uni_max_items c' = uni_max_items c \<or> uni_max_items c' = 0)"
  proof (cases ?r)
    case (Found k)
    with assms cap show ?thesis by (simp add: uni_hash_insert_internal_def Let_def)
  next
    case (Inserted ms' es' k f)
    from hash_insert_loop_inserted[OF Inserted]
    have "length es' = length (uni_entries c) - ?b" by simp
    with assms cap Inserted show ?thesis
      by (auto simp: uni_hash_insert_internal_def Let_def)
  next
    case Overrun
    with assms cap show ?thesis by (simp add: uni_hash_insert_internal_def Let_def)
  qed
  then show "uni_official_size c' = uni_official_size c"
    "uni_key_right_shift c' = uni_key_right_shift c"
    "uni_cur_items c' = uni_cur_items c"
    "length (uni_entries c') = length (uni_entries c)"
    "uni_max_items c' = uni_max_items c \<or> uni_max_items c' = 0" by simp_all
qed

lemma uni_insert_no_grow:
  assumes "uni_cur_items c < uni_max_items c"
    "MVM_uni_hash_insert rul h (Some c) key v = Inr t"
  shows "\<exists>c'. t = Some c' \<and> uni_official_size c' = uni_official_size c
           \<and> uni_key_right_shift c' = uni_key_right_shift c
           \<and> length (uni_entries c') = length (uni_entries c)
           \<and> (uni_max_items c' = uni_max_items c \<or> uni_max_items c' = 0)
           \<and> unat (uni_cur_items c') \<le> unat (uni_cur_items c) + 1"
proof -
  from assms(1) have cap: "\<not> uni_max_items c \<le> uni_cur_items c" by simp
  from assms(2) cap obtain c1 e where
    fi: "uni_fetch_or_insert h c key = Inr (c1, e)"
    by (auto simp: MVM_uni_hash_insert_def MVM_uni_hash_lvalue_fetch_def split: sum.splits)
  then obtain c0 e0 where ii: "uni_hash_insert_internal c key (h key) = Inr (c0, e0)"
    by (auto simp: uni_fetch_or_insert_def Let_def split: sum.splits)
  note fr = uni_hash_insert_internal_frame[OF ii]
  from fi ii have c1: "uni_official_size c1 = uni_official_size c0"
    "uni_key_right_shift c1 = uni_key_right_shift c0"
    "length (uni_entries c1) = length (uni_entries c0)"
    "uni_max_items c1 = uni_max_items c0"
    "uni_cur_items c1 = uni_cur_items c0 \<or> uni_cur_items c1 = uni_cur_items c0 + 1"
    by (auto simp: uni_fetch_or_insert_def Let_def split: if_splits)
  from c1(5) unat_word_succ_le[of "uni_cur_items c0"]
  have cur: "unat (uni_cur_items c1) \<le> unat (uni_cur_items c0) + 1" by auto
  from assms(2) cap fi obtain c' where t: "t = Some c'"
    and c': "uni_official_size c' = uni_official_size c1"
    "uni_key_right_shift c' = uni_key_right_shift c1"
    "length (uni_entries c') = length (uni_entries c1)"
    "uni_max_items c' = uni_max_items c1" "uni_cur_items c' = uni_cur_items c1"
    by (auto simp: MVM_uni_hash_insert_def MVM_uni_hash_lvalue_fetch_def split: if_splits)
  from t c' c1(1-4) cur fr show ?thesis by auto
qed

lemma max_items_kept_Cons:
  assumes "max_items_kept rul h c ((k, v) # rest)"
    "MVM_uni_hash_insert rul h (Some c) k v = Inr (Some c1)"
  shows "uni_max_items c \<noteq> 0" "rest \<noteq> [] \<Longrightarrow> uni_max_items c1 \<noteq> 0"
    "max_items_kept rul h c1 rest"
proof -
  let ?P = "\<lambda>c kvs j. case uni_insert_all rul h (Some c) (take j kvs) of
                       Inr (Some u) \<Rightarrow> uni_max_items u \<noteq> 0 | _ \<Rightarrow> True"
  from assms(1) have all0: "\<forall>j\<in>set [0..<length ((k, v) # rest)]. ?P c ((k, v) # rest) j"
    unfolding max_items_kept_def list_all_iff .
  have all: "?P c ((k, v) # rest) j" if "j < Suc (length rest)" for j
  proof -
    from that have "j \<in> set [0..<length ((k, v) # rest)]" by auto
    with all0 show ?thesis by (rule bspec)
  qed
  from all[of 0] show "uni_max_items c \<noteq> 0" by simp
  have s: "uni_insert_all rul h (Some c) (take (Suc j) ((k, v) # rest))
         = uni_insert_all rul h (Some c1) (take j rest)" for j
    using assms(2) by simp
  { assume "rest \<noteq> []"
    then have "Suc 0 < Suc (length rest)" by (cases rest) auto
    from all[OF this] show "uni_max_items c1 \<noteq> 0" unfolding s by simp }
  show "max_items_kept rul h c1 rest"
    unfolding max_items_kept_def list_all_iff
  proof
    fix j assume "j \<in> set [0..<length rest]"
    then have "Suc j < Suc (length rest)" by simp
    from all[OF this] show "?P c1 rest j" unfolding s .
  qed
qed

lemma uni_insert_all_no_grow:
  assumes "unat (uni_cur_items c) + length kvs \<le> unat (uni_max_items c)"
    "max_items_kept rul h c kvs"
    "uni_insert_all rul h (Some c) kvs = Inr t"
  shows "\<exists>c'. t = Some c' \<and> uni_official_size c' = uni_official_size c
           \<and> uni_key_right_shift c' = uni_key_right_shift c
           \<and> length (uni_entries c') = length (uni_entries c)"
  using assms
proof (induction kvs arbitrary: c)
  case Nil
  then show ?case by auto
next
  case (Cons kv rest)
  obtain k v where kv: "kv = (k, v)" by (cases kv)
  from Cons.prems(1) have cap: "uni_cur_items c < uni_max_items c"
    by (simp add: word_less_nat_alt)
  from Cons.prems(3) kv obtain t1 where
    i1: "MVM_uni_hash_insert rul h (Some c) k v = Inr t1"
    and rest: "uni_insert_all rul h t1 rest = Inr t"
    by (auto split: sum.splits)
  from uni_insert_no_grow[OF cap i1] obtain c1 where t1: "t1 = Some c1"
    and c1: "uni_official_size c1 = uni_official_size c"
    "uni_key_right_shift c1 = uni_key_right_shift c"
    "length (uni_entries c1) = length (uni_entries c)"
    "uni_max_items c1 = uni_max_items c \<or> uni_max_items c1 = 0"
    "unat (uni_cur_items c1) \<le> unat (uni_cur_items c) + 1" by auto
  note kept = max_items_kept_Cons[OF Cons.prems(2)[unfolded kv] i1[unfolded t1]]
  show ?case
  proof (cases "rest = []")
    case True
    with rest t1 c1 show ?thesis by auto
  next
    case False
    with kept(2) c1(4) have m: "uni_max_items c1 = uni_max_items c" by simp
    from Cons.prems(1) c1(5) m
    have "unat (uni_cur_items c1) + length rest \<le> unat (uni_max_items c1)" by simp
    from Cons.IH[OF this kept(3) rest[unfolded t1]] c1 show ?thesis by auto
  qed
qed

text \<open>
  Claim C9, as the code has it.  Let \<open>MVM_round_up_log_base2\<close> return for
  \<open>min_needed\<close> an exponent of at most \<open>31\<close> whose power of two is at least
  \<open>min_needed\<close>, and let \<open>4 * entries / 3\<close> fit 32 bits.  Then after
  \<open>MVM_uni_hash_build\<close> the official size is a power of two from \<open>8\<close> to \<open>2 ^ 31\<close>,
  \<open>max_items\<close> is three quarters of it and at least \<open>entries\<close>.  And a sequence of at
  most \<open>entries\<close> inserts that returns, and in which no insert but the last has set
  \<open>max_items\<close> to \<open>0\<close>, returns a table of the same official size, shift and number
  of slots: no insert has grown it.
\<close>

theorem uni_hash_build_capacity:
  assumes "unat entries < 3 * 2 ^ 30"
    and "rul (uni_min_needed entries) \<le> 31"
    and "unat (uni_min_needed entries) \<le> 2 ^ unat (rul (uni_min_needed entries))"
  shows "(\<exists>k. 3 \<le> k \<and> k \<le> 31
            \<and> unat (uni_official_size (MVM_uni_hash_build rul entries)) = 2 ^ k
            \<and> unat (uni_max_items (MVM_uni_hash_build rul entries)) = 3 * 2 ^ k div 4)
       \<and> entries \<le> uni_max_items (MVM_uni_hash_build rul entries)
       \<and> (length kvs \<le> unat entries
            \<and> max_items_kept rul h (MVM_uni_hash_build rul entries) kvs
            \<and> uni_insert_all rul h (Some (MVM_uni_hash_build rul entries)) kvs = Inr t
          \<longrightarrow> (\<exists>c'. t = Some c'
                 \<and> uni_official_size c' = uni_official_size (MVM_uni_hash_build rul entries)
                 \<and> uni_key_right_shift c' = uni_key_right_shift (MVM_uni_hash_build rul entries)
                 \<and> length (uni_entries c') = length (uni_entries (MVM_uni_hash_build rul entries))))"
proof -
  let ?B = "MVM_uni_hash_build rul entries"
  from uni_hash_build_sizes[where rul=rul and entries=entries, OF assms] obtain k where k: "3 \<le> k" "k \<le> 31"
    "unat (uni_official_size ?B) = 2 ^ k" "unat (uni_max_items ?B) = 3 * 2 ^ k div 4"
    "entries \<le> uni_max_items ?B" "uni_cur_items ?B = 0" by blast
  have "\<exists>c'. t = Some c' \<and> uni_official_size c' = uni_official_size ?B
           \<and> uni_key_right_shift c' = uni_key_right_shift ?B
           \<and> length (uni_entries c') = length (uni_entries ?B)"
    if a: "length kvs \<le> unat entries \<and> max_items_kept rul h ?B kvs
            \<and> uni_insert_all rul h (Some ?B) kvs = Inr t"
  proof (rule uni_insert_all_no_grow)
    from a k(5,6) show "unat (uni_cur_items ?B) + length kvs \<le> unat (uni_max_items ?B)"
      by (simp add: word_le_nat_alt)
    from a show "max_items_kept rul h ?B kvs" by simp
    from a show "uni_insert_all rul h (Some ?B) kvs = Inr t" by simp
  qed
  with k show ?thesis by blast
qed

text \<open>
  After \<open>MVM_uni_hash_build\<close> for \<open>256\<close> entries (official size \<open>512\<close>, \<open>max_items\<close>
  \<open>384\<close>), \<open>256\<close> distinct names whose hash codes collide: the 255th insert brings a
  probe distance to \<open>MVM_HASH_MAX_PROBE_DISTANCE\<close> and sets \<open>max_items\<close> to \<open>0\<close>, so the
  256th finds the table at capacity and grows it; the entries collide again in the
  grown table, and the insert ends in the abort of \<open>hash_insert_internal\<close>.
\<close>

theorem uni_hash_build_capacity_counterexample:
  "uni_official_size (MVM_uni_hash_build ex_round_up_log_base2 256) = 512
   \<and> uni_max_items (MVM_uni_hash_build ex_round_up_log_base2 256) = 384
   \<and> length (ex_names 256) = 256 \<and> distinct (map fst (ex_names 256))
   \<and> map_sum id (map_option uni_max_items)
        (uni_insert_all ex_round_up_log_base2 ex_colliding_hash_code
           (Some (MVM_uni_hash_build ex_round_up_log_base2 256)) (ex_names 255)) = Inr (Some 0)
   \<and> uni_insert_all ex_round_up_log_base2 ex_colliding_hash_code
        (Some (MVM_uni_hash_build ex_round_up_log_base2 256)) (ex_names 256)
       = Inl Oops_recursive_grow"
proof -
  let ?R = ex_round_up_log_base2 and ?H = ex_colliding_hash_code
  let ?es = "map (uni_entry_of ?H) (ex_names 255)"
  have run: "uni_insert_all ?R ?H (Some (uni_run 0 384 512 23 254 766 [])) (ex_names 255)
        = Inr (Some (uni_run (0 + word_of_nat (length (ex_names 255)))
             (if ex_names 255 \<noteq> [] \<and> length ([] :: MVMUniHashEntry list) + length (ex_names 255) = 255
              then 0 else 384) 512 23 254 766 ([] @ ?es)))"
  proof (rule uni_insert_all_run)
    show "distinct (map fst (ex_names 255))" by (rule ex_names_facts)
    show "\<forall>e\<in>set []. \<forall>kv\<in>set (ex_names 255). uhe_key e \<noteq> Some (fst kv)" by simp
    show "length ([] :: MVMUniHashEntry list) + length (ex_names 255) \<le> 255"
      by (simp add: ex_names_facts)
    show "length ([] :: MVMUniHashEntry list) + length (ex_names 255) \<le> 766"
      by (simp add: ex_names_facts)
    show "unat (0 :: 32 word) + length (ex_names 255) \<le> unat (384 :: 32 word)"
      by (simp add: ex_names_facts)
    show "\<forall>kv\<in>set (ex_names 255). drop_bit (unat (23 :: 8 word)) (?H (fst kv)) = 0"
      by (simp add: ex_colliding_hash_code_def)
  qed
  have ne: "ex_names 255 \<noteq> []" using ex_names_facts(1)[of 255] by auto
  from run ne have run': "uni_insert_all ?R ?H (Some (uni_run 0 384 512 23 254 766 []))
        (ex_names 255) = Inr (Some (uni_run 255 0 512 23 254 766 ?es))"
    by (simp add: ex_names_facts)
  have split: "ex_names 256 = ex_names 255 @ [(replicate 256 CHR ''a'', 255)]"
    using ex_names_Suc[of 255] by simp
  have fresh: "\<forall>kv\<in>set (ex_names 255). fst kv \<noteq> replicate 256 CHR ''a''"
  proof
    fix kv assume "kv \<in> set (ex_names 255)"
    then have "length (fst kv) \<le> 255" using ex_names_facts(3)[of "fst kv" "snd kv" 255] by simp
    then show "fst kv \<noteq> replicate 256 CHR ''a''" by auto
  qed
  have last: "MVM_uni_hash_lvalue_fetch ?R ?H (Some (uni_run 255 0 512 23 254 766 ?es))
                (replicate 256 CHR ''a'') = Inl Oops_recursive_grow"
    by (rule uni_lvalue_fetch_full_run[OF ex_names_facts(2) fresh])
       (simp_all add: ex_names_facts ex_colliding_hash_code_def)
  have all: "uni_insert_all ?R ?H (Some (uni_run 0 384 512 23 254 766 [])) (ex_names 256)
               = Inl Oops_recursive_grow"
    unfolding split uni_insert_all_append run'
    by (simp add: MVM_uni_hash_insert_def last)
  show ?thesis
    unfolding ex_build_run
    by (simp add: uni_run_sel ex_names_facts run' all)
qed

theorem uni_hash_build_capacity_witness:
  "unat (6 :: 32 word) < 3 * 2 ^ 30
   \<and> ex_round_up_log_base2 (uni_min_needed 6) \<le> 31
   \<and> unat (uni_min_needed 6) \<le> 2 ^ unat (ex_round_up_log_base2 (uni_min_needed 6))
   \<and> length ex_uni_pairs \<le> unat (6 :: 32 word)
   \<and> max_items_kept ex_round_up_log_base2 ex_uni_hash_code
        (MVM_uni_hash_build ex_round_up_log_base2 6) ex_uni_pairs
   \<and> uni_insert_all ex_round_up_log_base2 ex_uni_hash_code
        (Some (MVM_uni_hash_build ex_round_up_log_base2 6)) ex_uni_pairs
       = Inr (Some (uni_table_of ex_uni_pairs))
   \<and> 6 \<le> uni_max_items (MVM_uni_hash_build ex_round_up_log_base2 6)
   \<and> uni_official_size (uni_table_of ex_uni_pairs)
       = uni_official_size (MVM_uni_hash_build ex_round_up_log_base2 6)"
proof -
  let ?R = ex_round_up_log_base2 and ?H = ex_uni_hash_code
  have h1: "unat (6 :: 32 word) < 3 * 2 ^ 30" by simp
  have h2: "?R (uni_min_needed 6) \<le> 31" by code_simp
  have h3: "unat (uni_min_needed 6) \<le> 2 ^ unat (?R (uni_min_needed 6))" by code_simp
  have h4: "length ex_uni_pairs \<le> unat (6 :: 32 word)" by (simp add: ex_uni_pairs_def)
  have h5: "max_items_kept ?R ?H (MVM_uni_hash_build ?R 6) ex_uni_pairs" by code_simp
  have h6: "uni_insert_all ?R ?H (Some (MVM_uni_hash_build ?R 6)) ex_uni_pairs
              = Inr (Some (uni_table_of ex_uni_pairs))" by code_simp
  from uni_hash_build_capacity[where rul="?R" and entries=6 and kvs=ex_uni_pairs and h="?H"
         and t="Some (uni_table_of ex_uni_pairs)", OF h1 h2 h3]
    h1 h2 h3 h4 h5 h6
  show ?thesis by simp
qed

section \<open>Well-formed hash tables\<close>

subsection \<open>Probe distances from slot to slot\<close>







subsection \<open>Occupied slots and their buckets\<close>





subsection \<open>The entries of the occupied slots\<close>







subsection \<open>What the fetch finds\<close>




subsection \<open>The slot that an insert claims\<close>







subsection \<open>An empty table\<close>






subsection \<open>The pointer table stays well formed\<close>















subsection \<open>A key that is stored in the pointer table\<close>






subsection \<open>The table of Unicode names stays well formed\<close>















subsection \<open>A key that is stored in the table of Unicode names\<close>







subsection \<open>Keys that are present\<close>






end
